theory Spec2Isabelle
  imports Main
begin

section \<open>A hand-written lexical analyzer (codigo.py)\<close>

text \<open>
  A shallow embedding of the scanner of \<^verbatim>\<open>src/codigo.py\<close>: the token tables, the
  \<^verbatim>\<open>Token\<close> dataclass, the \<^verbatim>\<open>Lexer\<close> class with its cursor and symbol table, and the
  methods \<^verbatim>\<open>at_end\<close>, \<^verbatim>\<open>peek\<close>, \<^verbatim>\<open>advance\<close>, \<^verbatim>\<open>skip_ws_and_comments\<close>, the three
  recognizers, \<^verbatim>\<open>next_token\<close> and \<^verbatim>\<open>tokenize\<close>. The command-line block under
  \<^verbatim>\<open>__main__\<close>, which reads a file and prints the tokens, is not part of the model.

  Conventions of the embedding.
  \<^item> A Python \<^verbatim>\<open>str\<close> is a \<open>string\<close>. A \<open>char\<close> stands for the code point with the same
    number, so the embedding covers the texts over U+0000..U+00FF; on that range the
    predicates \<^verbatim>\<open>str.isalpha\<close>, \<^verbatim>\<open>str.isdigit\<close> and \<^verbatim>\<open>str.isalnum\<close> are written out as
    Python's Unicode tables give them.
  \<^item> The counters \<^verbatim>\<open>pos\<close>, \<^verbatim>\<open>n\<close>, \<^verbatim>\<open>line\<close>, \<^verbatim>\<open>col\<close> and \<^verbatim>\<open>_letseq\<close> start at 0 or 1 and are
    only ever incremented; they are unbounded naturals. A literal value is an \<open>int\<close>.
  \<^item> A method that mutates \<^verbatim>\<open>self\<close> takes the lexer and returns the new lexer beside its
    result. An exception is a value of type \<open>error\<close>, returned with the lexer as the
    exception leaves it.
  \<^item> Fields carry a prefix (\<open>tok_\<close> for \<^verbatim>\<open>Token\<close>, \<open>lx_\<close> for \<^verbatim>\<open>Lexer\<close>), since both
    classes have a \<^verbatim>\<open>line\<close> and a \<^verbatim>\<open>col\<close>.
\<close>

subsection \<open>Token tables\<close>

definition KEYWORDS :: "string set" where
  "KEYWORDS =
    {''if'', ''else'', ''while'', ''for'', ''return'',
     ''int'', ''float'', ''void'', ''char'', ''bool'',
     ''true'', ''false'', ''break'', ''continue''}"

definition OPERATORS_2 :: "string \<rightharpoonup> string" where
  "OPERATORS_2 = map_of
    [(''<='', ''MEOI''), (''>='', ''MAOI''), (''=='', ''IGL''), (''!='', ''DIS''),
     (''++'', ''INC''), (''--'', ''DEC''), (''+='', ''MASIG''), (''-='', ''MENOSIG''),
     (''*='', ''MULIG''), (''/='', ''DIVIG''), (''&&'', ''LAND''), (''||'', ''LOR'')]"

definition OPERATORS_1 :: "string \<rightharpoonup> string" where
  "OPERATORS_1 = map_of
    [(''+'', ''MAS''), (''-'', ''MENOS''), (''*'', ''MUL''), (''/'', ''DIV''),
     (''%'', ''MOD''), (''<'', ''MEQ''), (''>'', ''MAQ''), (''='', ''ES''),
     (''!'', ''NO''), ('':'', ''DPTS'')]"

definition PUNCT :: "string \<rightharpoonup> string" where
  "PUNCT = map_of
    [('';'', ''PYC''), ('','', ''COMA''), (''('', ''IPAREN''), ('')'', ''DPAREN''),
     (''{'', ''ILLAVE''), (''}'', ''DLLAVE''), (''['', ''ICOR''), ('']'', ''DCOR''),
     (''.'', ''PUN'')]"

subsection \<open>Python's string methods on the code points below 256\<close>

definition char_isalpha :: "char \<Rightarrow> bool" where
  "char_isalpha c =
    (let k = (of_char c :: nat) in
      (0x41 \<le> k \<and> k \<le> 0x5A) \<or> (0x61 \<le> k \<and> k \<le> 0x7A) \<or> k = 0xAA \<or> k = 0xB5 \<or>
      k = 0xBA \<or> (0xC0 \<le> k \<and> k \<le> 0xD6) \<or> (0xD8 \<le> k \<and> k \<le> 0xF6) \<or> 0xF8 \<le> k)"

text \<open>
  \<^verbatim>\<open>str.isdigit\<close> holds of the ASCII digits and of the superscript digits U+00B2, U+00B3
  and U+00B9; \<^verbatim>\<open>str.isdecimal\<close> (what \<^verbatim>\<open>int()\<close> accepts) only of the ASCII digits.
\<close>

definition char_isdecimal :: "char \<Rightarrow> bool" where
  "char_isdecimal c = (let k = (of_char c :: nat) in 0x30 \<le> k \<and> k \<le> 0x39)"

definition char_isdigit :: "char \<Rightarrow> bool" where
  "char_isdigit c =
    (let k = (of_char c :: nat) in (0x30 \<le> k \<and> k \<le> 0x39) \<or> k = 0xB2 \<or> k = 0xB3 \<or> k = 0xB9)"

text \<open>
  \<^verbatim>\<open>str.isalnum\<close> is \<^verbatim>\<open>isalpha or isdecimal or isdigit or isnumeric\<close>; the vulgar fractions
  U+00BC..U+00BE are numeric.
\<close>

definition char_isalnum :: "char \<Rightarrow> bool" where
  "char_isalnum c =
    (let k = (of_char c :: nat) in
      char_isalpha c \<or> char_isdigit c \<or> (0xBC \<le> k \<and> k \<le> 0xBE))"

text \<open>On a string each method asks for at least one character, and the property of all.\<close>

definition isalpha :: "string \<Rightarrow> bool" where
  "isalpha s = (s \<noteq> [] \<and> list_all char_isalpha s)"

definition isdigit :: "string \<Rightarrow> bool" where
  "isdigit s = (s \<noteq> [] \<and> list_all char_isdigit s)"

definition isalnum :: "string \<Rightarrow> bool" where
  "isalnum s = (s \<noteq> [] \<and> list_all char_isalnum s)"

text \<open>\<^verbatim>\<open>sub in s\<close> on strings: \<open>sub\<close> occurs in \<open>s\<close> as a substring.\<close>

fun str_in :: "string \<Rightarrow> string \<Rightarrow> bool" where
  "str_in sub [] = (sub = [])"
| "str_in sub (c # cs) = (take (length sub) (c # cs) = sub \<or> str_in sub cs)"

text \<open>
  \<^verbatim>\<open>str.upper\<close>, on ASCII letters. The lexer calls it on reserved words only, which are
  lower-case ASCII.
\<close>

definition char_upper :: "char \<Rightarrow> char" where
  "char_upper c =
    (let k = (of_char c :: nat) in if 0x61 \<le> k \<and> k \<le> 0x7A then char_of (k - 32) else c)"

definition upper :: "string \<Rightarrow> string" where
  "upper s = map char_upper s"

text \<open>
  \<^verbatim>\<open>int(lex)\<close> on the strings \<^verbatim>\<open>read_number\<close> builds, which are non-empty runs of
  \<^verbatim>\<open>isdigit\<close> characters (no sign, blank or underscore): the decimal value when every
  character is a decimal digit and the string is no longer than the interpreter's limit
  on integer string conversion, and \<^verbatim>\<open>ValueError\<close> (here \<open>None\<close>) otherwise. The limit is the
  interpreter's default, 4300 digits, leading zeros included.
\<close>

definition max_str_digits :: nat where
  "max_str_digits = 4300"

definition digit_value :: "char \<Rightarrow> int" where
  "digit_value c = int (of_char c - (0x30 :: nat))"

definition py_int :: "string \<Rightarrow> int option" where
  "py_int lexeme =
    (if lexeme \<noteq> [] \<and> list_all char_isdecimal lexeme \<and> length lexeme \<le> max_str_digits
     then Some (foldl (\<lambda>a c. 10 * a + digit_value c) 0 lexeme)
     else None)"

subsection \<open>Token, LexerError, Lexer\<close>

record Token =
  tok_type :: string
  tok_lexeme :: string
  tok_line :: nat
  tok_col :: nat
  tok_value :: "int option"
  tok_lid :: "nat option"

text \<open>
  \<^verbatim>\<open>LexerError\<close> carries the message's three holes: the character, the line and the
  column. \<^verbatim>\<open>ValueError\<close> is the built-in exception of \<^verbatim>\<open>int()\<close>, with the rejected literal.
\<close>

datatype error = LexerError string nat nat | ValueError string

record Lexer =
  lx_text :: string
  lx_n :: nat
  lx_pos :: nat
  lx_line :: nat
  lx_col :: nat
  lx_lettab :: "string \<rightharpoonup> nat"
  lx_letseq :: nat

text \<open>\<^verbatim>\<open>Lexer.__init__\<close>\<close>

definition Lexer_init :: "string \<Rightarrow> Lexer" where
  "Lexer_init text =
    \<lparr>lx_text = text, lx_n = length text, lx_pos = 0, lx_line = 1, lx_col = 1,
     lx_lettab = Map.empty, lx_letseq = 0\<rparr>"

definition at_end :: "Lexer \<Rightarrow> bool" where
  "at_end s = (lx_pos s \<ge> lx_n s)"

definition peek :: "Lexer \<Rightarrow> nat \<Rightarrow> string" where
  "peek s k = (if lx_pos s + k \<ge> lx_n s then [] else [lx_text s ! (lx_pos s + k)])"

definition advance :: "Lexer \<Rightarrow> string \<times> Lexer" where
  "advance s =
    (let ch = peek s 0;
         s1 = s\<lparr>lx_pos := lx_pos s + 1\<rparr>
     in if ch = [CHR 0x0A]
        then (ch, s1\<lparr>lx_line := lx_line s1 + 1, lx_col := 1\<rparr>)
        else (ch, s1\<lparr>lx_col := lx_col s1 + 1\<rparr>))"

text \<open>The number of characters between the cursor and the end of the text.\<close>

definition remaining :: "Lexer \<Rightarrow> nat" where
  "remaining s = lx_n s - lx_pos s"

lemma remaining_advance:
  "\<not> at_end s \<Longrightarrow> remaining (snd (advance s)) < remaining s"
  by (auto simp: remaining_def advance_def at_end_def Let_def)

subsection \<open>Skipping blanks and comments\<close>

text \<open>
  The inner loop \<^verbatim>\<open>while not self.at_end() and self.peek() in " \t\r\n"\<close>; the flag
  \<^verbatim>\<open>moved\<close> is threaded through it.
\<close>

function skip_ws_while :: "Lexer \<Rightarrow> bool \<Rightarrow> bool \<times> Lexer" where
  "skip_ws_while s moved =
    (if \<not> at_end s \<and> str_in (peek s 0) [CHR '' '', CHR 0x09, CHR 0x0D, CHR 0x0A]
     then skip_ws_while (snd (advance s)) True
     else (moved, s))"
  by pat_completeness auto
termination
  by (relation "measure (\<lambda>(s, moved). remaining s)") (auto simp: remaining_advance)

text \<open>The loop \<^verbatim>\<open>while not self.at_end() and self.peek() != "\n"\<close> of a comment.\<close>

function skip_comment_while :: "Lexer \<Rightarrow> Lexer" where
  "skip_comment_while s =
    (if \<not> at_end s \<and> peek s 0 \<noteq> [CHR 0x0A]
     then skip_comment_while (snd (advance s))
     else s)"
  by pat_completeness auto
termination
  by (relation "measure remaining") (auto simp: remaining_advance)

declare skip_ws_while.simps [simp del] skip_comment_while.simps [simp del]

lemma skip_ws_while_step:
  assumes "\<not> at_end s \<and> str_in (peek s 0) [CHR '' '', CHR 0x09, CHR 0x0D, CHR 0x0A]"
  shows "skip_ws_while s moved = skip_ws_while (snd (advance s)) True"
  by (subst skip_ws_while.simps) (rule if_P [OF assms])

lemma skip_ws_while_stop:
  assumes "\<not> (\<not> at_end s \<and> str_in (peek s 0) [CHR '' '', CHR 0x09, CHR 0x0D, CHR 0x0A])"
  shows "skip_ws_while s moved = (moved, s)"
  by (subst skip_ws_while.simps) (rule if_not_P [OF assms])

lemma skip_comment_while_step:
  assumes "\<not> at_end s \<and> peek s 0 \<noteq> [CHR 0x0A]"
  shows "skip_comment_while s = skip_comment_while (snd (advance s))"
  by (subst skip_comment_while.simps) (rule if_P [OF assms])

lemma skip_comment_while_stop:
  assumes "\<not> (\<not> at_end s \<and> peek s 0 \<noteq> [CHR 0x0A])"
  shows "skip_comment_while s = s"
  by (subst skip_comment_while.simps) (rule if_not_P [OF assms])

lemma skip_ws_while_remaining:
  "skip_ws_while s moved = (moved', s') \<Longrightarrow>
     remaining s' \<le> remaining s \<and> (moved' \<longrightarrow> moved \<or> remaining s' < remaining s)"
proof (induction s moved rule: skip_ws_while.induct)
  case (1 s moved)
  show ?case
  proof (cases "\<not> at_end s \<and> str_in (peek s 0) [CHR '' '', CHR 0x09, CHR 0x0D, CHR 0x0A]")
    case True
    with "1.prems" have "skip_ws_while (snd (advance s)) True = (moved', s')"
      by (simp only: skip_ws_while_step [OF True])
    with "1.IH" True have "remaining s' \<le> remaining (snd (advance s))"
      by blast
    moreover from True have "remaining (snd (advance s)) < remaining s"
      by (blast intro: remaining_advance)
    ultimately show ?thesis
      by simp
  next
    case False
    with "1.prems" show ?thesis
      by (simp only: skip_ws_while_stop [OF False]) simp
  qed
qed

lemma skip_comment_while_remaining:
  "remaining (skip_comment_while s) \<le> remaining s"
proof (induction s rule: skip_comment_while.induct)
  case (1 s)
  show ?case
  proof (cases "\<not> at_end s \<and> peek s 0 \<noteq> [CHR 0x0A]")
    case True
    from True have "remaining (snd (advance s)) < remaining s"
      by (blast intro: remaining_advance)
    with "1.IH" [OF True] show ?thesis
      by (simp only: skip_comment_while_step [OF True])
  next
    case False
    then show ?thesis
      by (simp add: skip_comment_while_stop [OF False])
  qed
qed

lemma skip_comment_while_progress:
  assumes "peek s 0 = ''/''"
  shows "remaining (skip_comment_while s) < remaining s"
proof -
  from assms have open_: "\<not> at_end s \<and> peek s 0 \<noteq> [CHR 0x0A]"
    by (auto simp: peek_def at_end_def split: if_splits)
  then have "skip_comment_while s = skip_comment_while (snd (advance s))"
    by (rule skip_comment_while_step)
  moreover from open_ have "remaining (snd (advance s)) < remaining s"
    by (blast intro: remaining_advance)
  ultimately show ?thesis
    using skip_comment_while_remaining [of "snd (advance s)"] by simp
qed

text \<open>
  \<^verbatim>\<open>skip_ws_and_comments\<close>: one call of the function is one turn of the loop
  \<^verbatim>\<open>while moved\<close>, which is entered with \<^verbatim>\<open>moved = True\<close> and so runs at least once.
\<close>

function skip_ws_and_comments :: "Lexer \<Rightarrow> Lexer" where
  "skip_ws_and_comments s =
    (let (moved1, s1) = skip_ws_while s False;
         (moved2, s2) =
           (if peek s1 0 = ''/'' \<and> peek s1 1 = ''/''
            then (True, skip_comment_while s1)
            else (moved1, s1))
     in if moved2 then skip_ws_and_comments s2 else s2)"
  by pat_completeness auto
termination
proof (relation "measure remaining")
  show "wf (measure remaining)"
    by simp
next
  fix s :: Lexer and x moved1 s1 xa moved2 s2
  assume ws: "x = skip_ws_while s False" "(moved1, s1) = x"
    and cm: "xa = (if peek s1 0 = ''/'' \<and> peek s1 1 = ''/''
                   then (True, skip_comment_while s1) else (moved1, s1))"
      "(moved2, s2) = xa"
    and moved: "moved2"
  from ws have le: "remaining s1 \<le> remaining s" and lt: "moved1 \<longrightarrow> remaining s1 < remaining s"
    using skip_ws_while_remaining [of s False moved1 s1] by auto
  show "(s2, s) \<in> measure remaining"
  proof (cases "peek s1 0 = ''/'' \<and> peek s1 1 = ''/''")
    case True
    with cm have "s2 = skip_comment_while s1"
      by simp
    with True skip_comment_while_progress [of s1] le show ?thesis
      by simp
  next
    case False
    with cm moved have "moved1" "s2 = s1"
      by auto
    with lt show ?thesis
      by simp
  qed
qed

declare skip_ws_and_comments.simps [simp del]

subsection \<open>The three recognizers\<close>

text \<open>
  The loop of \<^verbatim>\<open>read_identifier_or_keyword\<close>,
  \<^verbatim>\<open>while not self.at_end() and (self.peek().isalnum() or self.peek() == "_")\<close>, with the
  lexeme read so far.
\<close>

function ident_while :: "Lexer \<Rightarrow> string \<Rightarrow> string \<times> Lexer" where
  "ident_while s lexeme =
    (if \<not> at_end s \<and> (isalnum (peek s 0) \<or> peek s 0 = ''_'')
     then ident_while (snd (advance s)) (lexeme @ fst (advance s))
     else (lexeme, s))"
  by pat_completeness auto
termination
  by (relation "measure (\<lambda>(s, lexeme). remaining s)") (auto simp: remaining_advance)

declare ident_while.simps [simp del]

text \<open>
  A symbol id is attached with \<^verbatim>\<open>tok.lid = self.lettab[lex]\<close>, a lookup of a key that is
  in the dictionary at that point: the token gets what the map holds.
\<close>

definition read_identifier_or_keyword :: "Lexer \<Rightarrow> Token option \<times> Lexer" where
  "read_identifier_or_keyword s =
    (let ch = peek s 0 in
     if \<not> (isalpha ch \<or> ch = ''_'') then (None, s)
     else
       let start_line = lx_line s;
           start_col = lx_col s;
           (lexeme, s2) = ident_while (snd (advance s)) (fst (advance s));
           ttype = (if lexeme \<in> KEYWORDS then ''KW_'' @ upper lexeme else ''ID'');
           tok = \<lparr>tok_type = ttype, tok_lexeme = lexeme, tok_line = start_line,
                  tok_col = start_col, tok_value = None, tok_lid = None\<rparr>
       in if ttype = ''ID''
          then
            let s3 = (if lx_lettab s2 lexeme = None
                      then s2\<lparr>lx_lettab := (lx_lettab s2)(lexeme \<mapsto> lx_letseq s2),
                              lx_letseq := lx_letseq s2 + 1\<rparr>
                      else s2)
            in (Some (tok\<lparr>tok_lid := lx_lettab s3 lexeme\<rparr>), s3)
          else (Some tok, s2))"

text \<open>The loop of \<^verbatim>\<open>read_number\<close>, \<^verbatim>\<open>while not self.at_end() and self.peek().isdigit()\<close>.\<close>

function number_while :: "Lexer \<Rightarrow> string \<Rightarrow> string \<times> Lexer" where
  "number_while s lexeme =
    (if \<not> at_end s \<and> isdigit (peek s 0)
     then number_while (snd (advance s)) (lexeme @ fst (advance s))
     else (lexeme, s))"
  by pat_completeness auto
termination
  by (relation "measure (\<lambda>(s, lexeme). remaining s)") (auto simp: remaining_advance)

declare number_while.simps [simp del]

text \<open>\<^verbatim>\<open>read_number\<close> is the one recognizer that can raise: \<^verbatim>\<open>int(lex)\<close> may reject the run.\<close>

definition read_number :: "Lexer \<Rightarrow> (error + Token option) \<times> Lexer" where
  "read_number s =
    (if \<not> isdigit (peek s 0) then (Inr None, s)
     else
       let start_line = lx_line s;
           start_col = lx_col s;
           (lexeme, s2) = number_while (snd (advance s)) (fst (advance s))
       in case py_int lexeme of
            None \<Rightarrow> (Inl (ValueError lexeme), s2)
          | Some v \<Rightarrow>
              (Inr (Some \<lparr>tok_type = ''NUM'', tok_lexeme = lexeme, tok_line = start_line,
                          tok_col = start_col, tok_value = Some v, tok_lid = None\<rparr>), s2))"

definition read_operator_or_punct :: "Lexer \<Rightarrow> Token option \<times> Lexer" where
  "read_operator_or_punct s =
    (let start_line = lx_line s;
         start_col = lx_col s;
         two_chars = peek s 0 @ peek s 1
     in case OPERATORS_2 two_chars of
          Some kind \<Rightarrow>
            (Some \<lparr>tok_type = kind, tok_lexeme = two_chars, tok_line = start_line,
                   tok_col = start_col, tok_value = None, tok_lid = None\<rparr>,
             snd (advance (snd (advance s))))
        | None \<Rightarrow>
            let one_char = peek s 0
            in case OPERATORS_1 one_char of
                 Some kind \<Rightarrow>
                   (Some \<lparr>tok_type = kind, tok_lexeme = one_char, tok_line = start_line,
                          tok_col = start_col, tok_value = None, tok_lid = None\<rparr>,
                    snd (advance s))
               | None \<Rightarrow>
                   (case PUNCT one_char of
                      Some kind \<Rightarrow>
                        (Some \<lparr>tok_type = kind, tok_lexeme = one_char, tok_line = start_line,
                               tok_col = start_col, tok_value = None, tok_lid = None\<rparr>,
                         snd (advance s))
                    | None \<Rightarrow> (None, s)))"

subsection \<open>Every recognizer moves the cursor forward\<close>

lemma peek_at_end: "at_end s \<Longrightarrow> peek s k = []"
  by (simp add: peek_def at_end_def)

lemma peek_nonempty_not_at_end: "peek s 0 \<noteq> [] \<Longrightarrow> \<not> at_end s"
  using peek_at_end by blast

lemma isalpha_nonempty: "isalpha ch \<Longrightarrow> ch \<noteq> []"
  by (simp add: isalpha_def)

lemma isdigit_nonempty: "isdigit ch \<Longrightarrow> ch \<noteq> []"
  by (simp add: isdigit_def)

lemma ident_while_step:
  assumes "\<not> at_end s \<and> (isalnum (peek s 0) \<or> peek s 0 = ''_'')"
  shows "ident_while s lexeme = ident_while (snd (advance s)) (lexeme @ fst (advance s))"
  by (subst ident_while.simps) (rule if_P [OF assms])

lemma ident_while_stop:
  assumes "\<not> (\<not> at_end s \<and> (isalnum (peek s 0) \<or> peek s 0 = ''_''))"
  shows "ident_while s lexeme = (lexeme, s)"
  by (subst ident_while.simps) (rule if_not_P [OF assms])

lemma number_while_step:
  assumes "\<not> at_end s \<and> isdigit (peek s 0)"
  shows "number_while s lexeme = number_while (snd (advance s)) (lexeme @ fst (advance s))"
  by (subst number_while.simps) (rule if_P [OF assms])

lemma number_while_stop:
  assumes "\<not> (\<not> at_end s \<and> isdigit (peek s 0))"
  shows "number_while s lexeme = (lexeme, s)"
  by (subst number_while.simps) (rule if_not_P [OF assms])

lemma ident_while_remaining:
  "remaining (snd (ident_while s lexeme)) \<le> remaining s"
proof (induction s lexeme rule: ident_while.induct)
  case (1 s lexeme)
  show ?case
  proof (cases "\<not> at_end s \<and> (isalnum (peek s 0) \<or> peek s 0 = ''_'')")
    case True
    then have "remaining (snd (advance s)) < remaining s"
      by (blast intro: remaining_advance)
    with "1.IH" [OF True] show ?thesis
      by (simp only: ident_while_step [OF True])
  next
    case False
    then show ?thesis
      by (simp add: ident_while_stop [OF False])
  qed
qed

lemma number_while_remaining:
  "remaining (snd (number_while s lexeme)) \<le> remaining s"
proof (induction s lexeme rule: number_while.induct)
  case (1 s lexeme)
  show ?case
  proof (cases "\<not> at_end s \<and> isdigit (peek s 0)")
    case True
    then have "remaining (snd (advance s)) < remaining s"
      by (blast intro: remaining_advance)
    with "1.IH" [OF True] show ?thesis
      by (simp only: number_while_step [OF True])
  next
    case False
    then show ?thesis
      by (simp add: number_while_stop [OF False])
  qed
qed

lemma read_identifier_or_keyword_None:
  "read_identifier_or_keyword s = (None, s') \<Longrightarrow> s' = s"
  by (auto simp: read_identifier_or_keyword_def Let_def split: if_splits prod.splits)

lemma read_identifier_or_keyword_progress:
  assumes "read_identifier_or_keyword s = (Some tok, s')"
  shows "remaining s' < remaining s"
proof -
  from assms have guard: "isalpha (peek s 0) \<or> peek s 0 = ''_''"
    by (auto simp: read_identifier_or_keyword_def Let_def split: if_splits)
  then have "\<not> at_end s"
    by (auto simp: peek_at_end isalpha_def)
  then have adv: "remaining (snd (advance s)) < remaining s"
    by (rule remaining_advance)
  obtain lexeme s2 where run: "ident_while (snd (advance s)) (fst (advance s)) = (lexeme, s2)"
    by (cases "ident_while (snd (advance s)) (fst (advance s))")
  with ident_while_remaining [of "snd (advance s)" "fst (advance s)"]
  have "remaining s2 \<le> remaining (snd (advance s))"
    by simp
  moreover from assms guard run have "remaining s' = remaining s2"
    by (auto simp: read_identifier_or_keyword_def Let_def remaining_def split: if_splits)
  ultimately show ?thesis
    using adv by simp
qed

lemma read_number_None:
  "read_number s = (Inr None, s') \<Longrightarrow> s' = s"
  by (auto simp: read_number_def Let_def split: if_splits prod.splits option.splits)

lemma read_number_progress:
  assumes "read_number s = (r, s')" and "r \<noteq> Inr None"
  shows "remaining s' < remaining s"
proof -
  from assms have guard: "isdigit (peek s 0)"
    by (auto simp: read_number_def Let_def split: if_splits)
  then have "\<not> at_end s"
    by (auto simp: peek_at_end isdigit_def)
  then have adv: "remaining (snd (advance s)) < remaining s"
    by (rule remaining_advance)
  obtain lexeme s2 where run: "number_while (snd (advance s)) (fst (advance s)) = (lexeme, s2)"
    by (cases "number_while (snd (advance s)) (fst (advance s))")
  with number_while_remaining [of "snd (advance s)" "fst (advance s)"]
  have "remaining s2 \<le> remaining (snd (advance s))"
    by simp
  moreover from assms guard run have "s' = s2"
    by (auto simp: read_number_def Let_def split: if_splits option.splits)
  ultimately show ?thesis
    using adv by simp
qed

lemma OPERATORS_2_length: "OPERATORS_2 k = Some v \<Longrightarrow> length k = 2"
  by (auto simp: OPERATORS_2_def split: if_splits)

lemma OPERATORS_1_length: "OPERATORS_1 k = Some v \<Longrightarrow> length k = 1"
  by (auto simp: OPERATORS_1_def split: if_splits)

lemma PUNCT_length: "PUNCT k = Some v \<Longrightarrow> length k = 1"
  by (auto simp: PUNCT_def split: if_splits)

lemma read_operator_or_punct_None:
  "read_operator_or_punct s = (None, s') \<Longrightarrow> s' = s"
  by (auto simp: read_operator_or_punct_def Let_def split: option.splits)

lemma peek_length: "length (peek s k) \<le> 1"
  by (simp add: peek_def)

lemma two_chars_window:
  assumes "length (peek s 0 @ peek s 1) = 2"
  shows "lx_pos s + 1 < lx_n s"
  using assms by (auto simp: peek_def split: if_splits)

lemma read_operator_or_punct_progress:
  assumes "read_operator_or_punct s = (Some tok, s')"
  shows "remaining s' < remaining s"
proof (cases "OPERATORS_2 (peek s 0 @ peek s 1)")
  case (Some kind)
  then have "lx_pos s + 1 < lx_n s"
    by (blast dest: OPERATORS_2_length two_chars_window)
  moreover from assms Some have "s' = snd (advance (snd (advance s)))"
    by (simp add: read_operator_or_punct_def Let_def)
  ultimately show ?thesis
    by (simp add: remaining_def advance_def Let_def)
next
  case None
  with assms have "OPERATORS_1 (peek s 0) \<noteq> None \<or> PUNCT (peek s 0) \<noteq> None"
    by (auto simp: read_operator_or_punct_def Let_def split: option.splits)
  then have "peek s 0 \<noteq> []"
    by (auto dest: OPERATORS_1_length PUNCT_length)
  then have "remaining (snd (advance s)) < remaining s"
    using peek_at_end remaining_advance by blast
  moreover from assms None have "s' = snd (advance s)"
    by (auto simp: read_operator_or_punct_def Let_def split: option.splits)
  ultimately show ?thesis
    by simp
qed

lemma skip_ws_and_comments_remaining:
  "remaining (skip_ws_and_comments s) \<le> remaining s"
proof (induction s rule: skip_ws_and_comments.induct)
  case (1 s)
  obtain moved1 s1 where ws: "skip_ws_while s False = (moved1, s1)"
    by (cases "skip_ws_while s False")
  then have le1: "remaining s1 \<le> remaining s"
    using skip_ws_while_remaining by blast
  define r where "r = (if peek s1 0 = ''/'' \<and> peek s1 1 = ''/''
                       then (True, skip_comment_while s1) else (moved1, s1))"
  obtain moved2 s2 where cm: "r = (moved2, s2)"
    by (cases r)
  have le2: "remaining s2 \<le> remaining s1"
    using cm skip_comment_while_remaining [of s1] by (auto simp: r_def split: if_splits)
  have unfold: "skip_ws_and_comments s = (if moved2 then skip_ws_and_comments s2 else s2)"
    using ws cm by (subst skip_ws_and_comments.simps) (simp add: r_def)
  show ?case
  proof (cases moved2)
    case True
    from "1.IH" [OF ws [symmetric] refl _ refl True] cm
    have "remaining (skip_ws_and_comments s2) \<le> remaining s2"
      by (simp add: r_def)
    with le1 le2 unfold True show ?thesis
      by simp
  next
    case False
    with le1 le2 unfold show ?thesis
      by simp
  qed
qed

subsection \<open>The dispatch and the token stream\<close>

definition next_token :: "Lexer \<Rightarrow> (error + Token) \<times> Lexer" where
  "next_token s =
    (let s0 = skip_ws_and_comments s in
     if at_end s0
     then (Inr \<lparr>tok_type = ''EOF'', tok_lexeme = [], tok_line = lx_line s0,
                 tok_col = lx_col s0, tok_value = None, tok_lid = None\<rparr>, s0)
     else
       case read_identifier_or_keyword s0 of
         (Some tok, s1) \<Rightarrow> (Inr tok, s1)
       | (None, s1) \<Rightarrow>
           (case read_number s1 of
              (Inl e, s2) \<Rightarrow> (Inl e, s2)
            | (Inr (Some tok), s2) \<Rightarrow> (Inr tok, s2)
            | (Inr None, s2) \<Rightarrow>
                (case read_operator_or_punct s2 of
                   (Some tok, s3) \<Rightarrow> (Inr tok, s3)
                 | (None, s3) \<Rightarrow>
                     (Inl (LexerError (peek s3 0) (lx_line s3) (lx_col s3)), s3))))"

lemma next_token_progress:
  assumes "next_token s = (Inr tok, s')" and "tok_type tok \<noteq> ''EOF''"
  shows "remaining s' < remaining s"
proof -
  define s0 where "s0 = skip_ws_and_comments s"
  have le: "remaining s0 \<le> remaining s"
    unfolding s0_def by (rule skip_ws_and_comments_remaining)
  from assms have open_: "\<not> at_end s0"
    by (auto simp: next_token_def Let_def s0_def split: if_splits)
  obtain r1 s1 where id: "read_identifier_or_keyword s0 = (r1, s1)"
    by (cases "read_identifier_or_keyword s0")
  have "remaining s' < remaining s0"
  proof (cases r1)
    case (Some t)
    with assms open_ id have "s' = s1"
      by (simp add: next_token_def Let_def s0_def [symmetric])
    with id Some show ?thesis
      by (simp add: read_identifier_or_keyword_progress)
  next
    case None
    with id have s1: "s1 = s0"
      by (simp add: read_identifier_or_keyword_None)
    obtain r2 s2 where num: "read_number s0 = (r2, s2)"
      by (cases "read_number s0")
    show ?thesis
    proof (cases "r2 = Inr None")
      case False
      with assms open_ id None s1 num have "s' = s2"
        by (auto simp: next_token_def Let_def s0_def [symmetric] split: sum.splits option.splits)
      with num False show ?thesis
        by (simp add: read_number_progress)
    next
      case True
      with num have s2: "s2 = s0"
        by (simp add: read_number_None)
      obtain r3 s3 where op: "read_operator_or_punct s0 = (r3, s3)"
        by (cases "read_operator_or_punct s0")
      with assms open_ id None s1 num True s2 have "r3 = Some tok" "s' = s3"
        by (auto simp: next_token_def Let_def s0_def [symmetric] split: option.splits)
      with op show ?thesis
        by (simp add: read_operator_or_punct_progress)
    qed
  qed
  with le show ?thesis
    by simp
qed

text \<open>
  \<^verbatim>\<open>tokenize\<close>: the loop \<^verbatim>\<open>while True\<close> with the list \<^verbatim>\<open>tokens\<close>; an exception of
  \<^verbatim>\<open>next_token\<close> leaves the loop and the method, and the list is lost.
\<close>

function tokenize_while :: "Lexer \<Rightarrow> Token list \<Rightarrow> (error + Token list) \<times> Lexer" where
  "tokenize_while s tokens =
    (case next_token s of
       (Inl e, s') \<Rightarrow> (Inl e, s')
     | (Inr tok, s') \<Rightarrow>
         if tok_type tok = ''EOF''
         then (Inr (tokens @ [tok]), s')
         else tokenize_while s' (tokens @ [tok]))"
  by pat_completeness auto
termination
  by (relation "measure (\<lambda>(s, tokens). remaining s)")
    (auto intro: next_token_progress [OF sym])

declare tokenize_while.simps [simp del]

definition tokenize :: "Lexer \<Rightarrow> (error + Token list) \<times> Lexer" where
  "tokenize s = tokenize_while s []"

section \<open>Notions used to state the properties\<close>

text \<open>
  \<open>advances s s'\<close>: the lexer \<open>s'\<close> is reached from \<open>s\<close> by calls of \<^verbatim>\<open>advance\<close>, each made
  before the end of the text.
\<close>

inductive advances :: "Lexer \<Rightarrow> Lexer \<Rightarrow> bool" where
  advances_refl: "advances s s"
| advances_step: "\<not> at_end s \<Longrightarrow> advances (snd (advance s)) s' \<Longrightarrow> advances s s'"

text \<open>
  The position the spec gives the cursor after a prefix of the text: lines count from 1
  and grow with each newline, which sends the column back to 1; any other character
  moves the column by one.
\<close>

definition step_position :: "nat \<times> nat \<Rightarrow> char \<Rightarrow> nat \<times> nat" where
  "step_position p c = (if c = CHR 0x0A then (fst p + 1, 1) else (fst p, snd p + 1))"

definition position_after :: "string \<Rightarrow> nat \<times> nat" where
  "position_after cs = foldl step_position (1, 1) cs"

text \<open>
  The invariant of the cursor: \<^verbatim>\<open>n\<close> is the length of the text, the offset is within the
  text or just past it, and line and column are those of the offset.
\<close>

definition cursor_inv :: "Lexer \<Rightarrow> bool" where
  "cursor_inv s =
    (lx_n s = length (lx_text s) \<and> lx_pos s \<le> lx_n s \<and>
     (lx_line s, lx_col s) = position_after (take (lx_pos s) (lx_text s)))"

text \<open>
  The texts that consist solely of blanks (space, tab, carriage return, newline) and of
  comments, each from \<^verbatim>\<open>//\<close> to the end of its line or of the text. \<open>in_comment\<close> reads
  the rest of a comment.
\<close>

fun only_trivia :: "string \<Rightarrow> bool" and in_comment :: "string \<Rightarrow> bool" where
  "only_trivia [] = True"
| "only_trivia (c # cs) =
    (if c \<in> {CHR '' '', CHR 0x09, CHR 0x0D, CHR 0x0A} then only_trivia cs
     else c = CHR ''/'' \<and> (case cs of [] \<Rightarrow> False | d # ds \<Rightarrow> d = CHR ''/'' \<and> in_comment ds))"
| "in_comment [] = True"
| "in_comment (c # cs) = (if c = CHR 0x0A then only_trivia cs else in_comment cs)"

text \<open>
  The id the spec gives a spelling within a scan: the number of distinct spellings that
  occur before its first occurrence in the sequence of identifier lexemes.
\<close>

definition first_rank :: "string list \<Rightarrow> string \<Rightarrow> nat" where
  "first_rank seen l = card (set (takeWhile (\<lambda>x. x \<noteq> l) seen))"

text \<open>The lexemes of the identifier tokens of a token list, in order.\<close>

definition id_lexemes :: "Token list \<Rightarrow> string list" where
  "id_lexemes toks = map tok_lexeme (filter (\<lambda>tk. tok_type tk = ''ID'') toks)"

text \<open>
  The invariant of a scan: the table holds exactly the spellings seen so far, each with
  its rank, and the sequence counter is their number.
\<close>

definition table_matches :: "Lexer \<Rightarrow> string list \<Rightarrow> bool" where
  "table_matches s seen =
    (lx_lettab s = (\<lambda>l. if l \<in> set seen then Some (first_rank seen l) else None) \<and>
     lx_letseq s = card (set seen))"

text \<open>Every identifier token of a list carries the rank of its spelling in that list.\<close>

definition ids_ranked :: "Token list \<Rightarrow> bool" where
  "ids_ranked toks =
    (\<forall>tk \<in> set toks. tok_type tk = ''ID'' \<longrightarrow>
       tok_lid tk = Some (first_rank (id_lexemes toks) (tok_lexeme tk)))"

section \<open>Properties of the scanner\<close>

subsection \<open>Token kinds and the end marker\<close>

lemma OPERATORS_2_not_EOF: "OPERATORS_2 k = Some v \<Longrightarrow> v \<noteq> ''EOF'' \<and> v \<noteq> ''ID''"
  by (auto simp: OPERATORS_2_def split: if_splits)

lemma OPERATORS_1_not_EOF: "OPERATORS_1 k = Some v \<Longrightarrow> v \<noteq> ''EOF'' \<and> v \<noteq> ''ID''"
  by (auto simp: OPERATORS_1_def split: if_splits)

lemma PUNCT_not_EOF: "PUNCT k = Some v \<Longrightarrow> v \<noteq> ''EOF'' \<and> v \<noteq> ''ID''"
  by (auto simp: PUNCT_def split: if_splits)

lemma read_identifier_or_keyword_type:
  "read_identifier_or_keyword s = (Some tok, s') \<Longrightarrow>
     tok_type tok = ''ID'' \<or> tok_type tok = ''KW_'' @ upper (tok_lexeme tok)"
  by (auto simp: read_identifier_or_keyword_def Let_def split: if_splits prod.splits)

lemma read_number_type:
  "read_number s = (Inr (Some tok), s') \<Longrightarrow> tok_type tok = ''NUM''"
  by (auto simp: read_number_def Let_def split: if_splits prod.splits option.splits)

lemma read_operator_or_punct_type:
  "read_operator_or_punct s = (Some tok, s') \<Longrightarrow>
     tok_type tok \<noteq> ''EOF'' \<and> tok_type tok \<noteq> ''ID''"
  by (auto simp: read_operator_or_punct_def Let_def split: option.splits
      dest: OPERATORS_2_not_EOF OPERATORS_1_not_EOF PUNCT_not_EOF)

lemma skip_ws_and_comments_at_end:
  assumes "at_end s"
  shows "skip_ws_and_comments s = s"
proof -
  from assms have "skip_ws_while s False = (False, s)"
    by (simp add: skip_ws_while_stop)
  moreover from assms have "peek s 0 = []"
    by (rule peek_at_end)
  ultimately show ?thesis
    by (subst skip_ws_and_comments.simps) simp
qed

lemma next_token_EOF:
  assumes "next_token s = (Inr tok, s')" and "tok_type tok = ''EOF''"
  shows "at_end s' \<and> s' = skip_ws_and_comments s \<and>
         tok = \<lparr>tok_type = ''EOF'', tok_lexeme = [], tok_line = lx_line s',
                 tok_col = lx_col s', tok_value = None, tok_lid = None\<rparr>"
proof (cases "at_end (skip_ws_and_comments s)")
  case True
  with assms show ?thesis
    by (auto simp: next_token_def Let_def)
next
  case False
  with assms have "False"
    by (auto simp: next_token_def Let_def
        split: prod.splits option.splits sum.splits
        dest: read_identifier_or_keyword_type read_number_type read_operator_or_punct_type)
  then show ?thesis ..
qed

text \<open>
  Claim C10. Once \<^verbatim>\<open>next_token\<close> has returned the end marker, calling it again neither
  fails nor changes anything: the call returns the same end-marker token (same line and
  column) and leaves the lexer as it was, so every later call does the same.
\<close>

theorem next_token_after_EOF:
  assumes "next_token s = (Inr tok, s')" and "tok_type tok = ''EOF''"
  shows "next_token s' = (Inr tok, s')"
proof -
  from assms have e: "at_end s'"
    and t: "tok = \<lparr>tok_type = ''EOF'', tok_lexeme = [], tok_line = lx_line s',
                 tok_col = lx_col s', tok_value = None, tok_lid = None\<rparr>"
    using next_token_EOF by blast+
  from e have "skip_ws_and_comments s' = s'"
    by (rule skip_ws_and_comments_at_end)
  with e t show ?thesis
    by (simp add: next_token_def Let_def)
qed

theorem next_token_after_EOF_witness:
  "fst (next_token (Lexer_init '' '')) =
     Inr \<lparr>tok_type = ''EOF'', tok_lexeme = [], tok_line = 1, tok_col = 2,
           tok_value = None, tok_lid = None\<rparr> \<and>
   fst (next_token (snd (next_token (Lexer_init '' '')))) =
     Inr \<lparr>tok_type = ''EOF'', tok_lexeme = [], tok_line = 1, tok_col = 2,
           tok_value = None, tok_lid = None\<rparr>"
proof -
  let ?eof = "\<lparr>tok_type = ''EOF'', tok_lexeme = [], tok_line = 1, tok_col = 2,
           tok_value = None, tok_lid = None\<rparr>"
  have first: "fst (next_token (Lexer_init '' '')) = Inr ?eof"
    by code_simp
  then have "next_token (Lexer_init '' '') = (Inr ?eof, snd (next_token (Lexer_init '' '')))"
    by (simp add: prod_eq_iff)
  from next_token_after_EOF [OF this] first show ?thesis
    by simp
qed

subsection \<open>The operator and punctuation recognizer\<close>

lemma advance_pos: "lx_pos (snd (advance s)) = lx_pos s + 1"
  by (simp add: advance_def Let_def)

text \<open>
  Claim C1. \<^verbatim>\<open>read_operator_or_punct\<close> looks the two-character window under the cursor up
  in \<^verbatim>\<open>OPERATORS_2\<close> first: on a hit it emits that table's kind, whatever the one-character
  tables hold, and consumes exactly two characters. Only on a miss does it look the
  character under the cursor up in \<^verbatim>\<open>OPERATORS_1\<close> and then in \<^verbatim>\<open>PUNCT\<close>, and a hit there
  consumes exactly one character. Scanning \<^verbatim>\<open>==\<close> gives one \<^verbatim>\<open>IGL\<close> token (and the end
  marker), never two \<^verbatim>\<open>ES\<close> tokens; scanning \<^verbatim>\<open>= =\<close> gives two \<^verbatim>\<open>ES\<close> tokens.
\<close>

theorem read_operator_or_punct_two_before_one:
  "(OPERATORS_2 (peek s 0 @ peek s 1) = Some kind \<longrightarrow>
      read_operator_or_punct s =
        (Some \<lparr>tok_type = kind, tok_lexeme = peek s 0 @ peek s 1, tok_line = lx_line s,
               tok_col = lx_col s, tok_value = None, tok_lid = None\<rparr>,
         snd (advance (snd (advance s)))) \<and>
      length (peek s 0 @ peek s 1) = 2 \<and>
      lx_pos (snd (read_operator_or_punct s)) = lx_pos s + 2) \<and>
   (OPERATORS_2 (peek s 0 @ peek s 1) = None \<and>
    (OPERATORS_1 (peek s 0) = Some kind \<or>
     OPERATORS_1 (peek s 0) = None \<and> PUNCT (peek s 0) = Some kind) \<longrightarrow>
      read_operator_or_punct s =
        (Some \<lparr>tok_type = kind, tok_lexeme = peek s 0, tok_line = lx_line s,
               tok_col = lx_col s, tok_value = None, tok_lid = None\<rparr>,
         snd (advance s)) \<and>
      length (peek s 0) = 1 \<and>
      lx_pos (snd (read_operator_or_punct s)) = lx_pos s + 1) \<and>
   fst (tokenize (Lexer_init ''=='')) =
     Inr [\<lparr>tok_type = ''IGL'', tok_lexeme = ''=='', tok_line = 1, tok_col = 1,
            tok_value = None, tok_lid = None\<rparr>,
          \<lparr>tok_type = ''EOF'', tok_lexeme = [], tok_line = 1, tok_col = 3,
            tok_value = None, tok_lid = None\<rparr>] \<and>
   fst (tokenize (Lexer_init ''= ='')) =
     Inr [\<lparr>tok_type = ''ES'', tok_lexeme = ''='', tok_line = 1, tok_col = 1,
            tok_value = None, tok_lid = None\<rparr>,
          \<lparr>tok_type = ''ES'', tok_lexeme = ''='', tok_line = 1, tok_col = 3,
            tok_value = None, tok_lid = None\<rparr>,
          \<lparr>tok_type = ''EOF'', tok_lexeme = [], tok_line = 1, tok_col = 4,
            tok_value = None, tok_lid = None\<rparr>]"
proof -
  have two: "OPERATORS_2 (peek s 0 @ peek s 1) = Some kind \<longrightarrow>
      read_operator_or_punct s =
        (Some \<lparr>tok_type = kind, tok_lexeme = peek s 0 @ peek s 1, tok_line = lx_line s,
               tok_col = lx_col s, tok_value = None, tok_lid = None\<rparr>,
         snd (advance (snd (advance s)))) \<and>
      length (peek s 0 @ peek s 1) = 2 \<and>
      lx_pos (snd (read_operator_or_punct s)) = lx_pos s + 2"
    by (simp add: read_operator_or_punct_def Let_def advance_pos OPERATORS_2_length
        del: length_append)
  have one: "OPERATORS_2 (peek s 0 @ peek s 1) = None \<and>
    (OPERATORS_1 (peek s 0) = Some kind \<or>
     OPERATORS_1 (peek s 0) = None \<and> PUNCT (peek s 0) = Some kind) \<longrightarrow>
      read_operator_or_punct s =
        (Some \<lparr>tok_type = kind, tok_lexeme = peek s 0, tok_line = lx_line s,
               tok_col = lx_col s, tok_value = None, tok_lid = None\<rparr>,
         snd (advance s)) \<and>
      length (peek s 0) = 1 \<and>
      lx_pos (snd (read_operator_or_punct s)) = lx_pos s + 1"
    by (auto simp: read_operator_or_punct_def Let_def advance_pos
        dest: OPERATORS_1_length PUNCT_length)
  have eq: "fst (tokenize (Lexer_init ''=='')) =
     Inr [\<lparr>tok_type = ''IGL'', tok_lexeme = ''=='', tok_line = 1, tok_col = 1,
            tok_value = None, tok_lid = None\<rparr>,
          \<lparr>tok_type = ''EOF'', tok_lexeme = [], tok_line = 1, tok_col = 3,
            tok_value = None, tok_lid = None\<rparr>]"
    by code_simp
  have as: "fst (tokenize (Lexer_init ''= '')) =
     Inr [\<lparr>tok_type = ''ES'', tok_lexeme = ''='', tok_line = 1, tok_col = 1,
            tok_value = None, tok_lid = None\<rparr>,
          \<lparr>tok_type = ''EOF'', tok_lexeme = [], tok_line = 1, tok_col = 3,
            tok_value = None, tok_lid = None\<rparr>]"
    by code_simp
  have as2: "fst (tokenize (Lexer_init ''= ='')) =
     Inr [\<lparr>tok_type = ''ES'', tok_lexeme = ''='', tok_line = 1, tok_col = 1,
            tok_value = None, tok_lid = None\<rparr>,
          \<lparr>tok_type = ''ES'', tok_lexeme = ''='', tok_line = 1, tok_col = 3,
            tok_value = None, tok_lid = None\<rparr>,
          \<lparr>tok_type = ''EOF'', tok_lexeme = [], tok_line = 1, tok_col = 4,
            tok_value = None, tok_lid = None\<rparr>]"
    by code_simp
  from two one eq as2 show ?thesis
    by (intro conjI)
qed

theorem read_operator_or_punct_two_before_one_witness:
  "OPERATORS_2 (peek (Lexer_init ''=='') 0 @ peek (Lexer_init ''=='') 1) = Some ''IGL'' \<and>
   fst (read_operator_or_punct (Lexer_init ''=='')) =
     Some \<lparr>tok_type = ''IGL'', tok_lexeme = ''=='', tok_line = 1, tok_col = 1,
           tok_value = None, tok_lid = None\<rparr> \<and>
   lx_pos (snd (read_operator_or_punct (Lexer_init ''==''))) = 2 \<and>
   OPERATORS_2 (peek (Lexer_init ''=;'') 0 @ peek (Lexer_init ''=;'') 1) = None \<and>
   OPERATORS_1 (peek (Lexer_init ''=;'') 0) = Some ''ES'' \<and>
   fst (read_operator_or_punct (Lexer_init ''=;'')) =
     Some \<lparr>tok_type = ''ES'', tok_lexeme = ''='', tok_line = 1, tok_col = 1,
           tok_value = None, tok_lid = None\<rparr> \<and>
   lx_pos (snd (read_operator_or_punct (Lexer_init ''=;''))) = 1 \<and>
   OPERATORS_2 (peek (Lexer_init '';='') 0 @ peek (Lexer_init '';='') 1) = None \<and>
   OPERATORS_1 (peek (Lexer_init '';='') 0) = None \<and>
   PUNCT (peek (Lexer_init '';='') 0) = Some ''PYC'' \<and>
   fst (read_operator_or_punct (Lexer_init '';='')) =
     Some \<lparr>tok_type = ''PYC'', tok_lexeme = '';'', tok_line = 1, tok_col = 1,
           tok_value = None, tok_lid = None\<rparr> \<and>
   lx_pos (snd (read_operator_or_punct (Lexer_init '';=''))) = 1"
proof -
  have p1: "peek (Lexer_init ''=='') 0 = ''=''" "peek (Lexer_init ''=='') 1 = ''=''"
    and p2: "peek (Lexer_init ''=;'') 0 = ''=''" "peek (Lexer_init ''=;'') 1 = '';''"
    and p3: "peek (Lexer_init '';='') 0 = '';''" "peek (Lexer_init '';='') 1 = ''=''"
    by code_simp+
  have h1: "OPERATORS_2 (peek (Lexer_init ''=='') 0 @ peek (Lexer_init ''=='') 1) = Some ''IGL''"
    by code_simp
  have h2: "OPERATORS_2 (peek (Lexer_init ''=;'') 0 @ peek (Lexer_init ''=;'') 1) = None"
    "OPERATORS_1 (peek (Lexer_init ''=;'') 0) = Some ''ES''"
    by code_simp+
  have h3: "OPERATORS_2 (peek (Lexer_init '';='') 0 @ peek (Lexer_init '';='') 1) = None"
    "OPERATORS_1 (peek (Lexer_init '';='') 0) = None"
    "PUNCT (peek (Lexer_init '';='') 0) = Some ''PYC''"
    by code_simp+
  have l: "lx_line (Lexer_init t) = 1" "lx_col (Lexer_init t) = 1" "lx_pos (Lexer_init t) = 0" for t
    by (simp_all add: Lexer_init_def)
  from read_operator_or_punct_two_before_one [of "Lexer_init ''==''" "''IGL''"] h1
  have r1: "fst (read_operator_or_punct (Lexer_init ''=='')) =
     Some \<lparr>tok_type = ''IGL'', tok_lexeme = ''=='', tok_line = 1, tok_col = 1,
           tok_value = None, tok_lid = None\<rparr> \<and>
   lx_pos (snd (read_operator_or_punct (Lexer_init ''==''))) = 2"
    by (simp add: p1 l advance_pos del: One_nat_def)
  from read_operator_or_punct_two_before_one [of "Lexer_init ''=;''" "''ES''"] h2
  have r2: "fst (read_operator_or_punct (Lexer_init ''=;'')) =
     Some \<lparr>tok_type = ''ES'', tok_lexeme = ''='', tok_line = 1, tok_col = 1,
           tok_value = None, tok_lid = None\<rparr> \<and>
   lx_pos (snd (read_operator_or_punct (Lexer_init ''=;''))) = 1"
    by (simp add: p2 l advance_pos del: One_nat_def)
  from read_operator_or_punct_two_before_one [of "Lexer_init '';=''" "''PYC''"] h3
  have r3: "fst (read_operator_or_punct (Lexer_init '';='')) =
     Some \<lparr>tok_type = ''PYC'', tok_lexeme = '';'', tok_line = 1, tok_col = 1,
           tok_value = None, tok_lid = None\<rparr> \<and>
   lx_pos (snd (read_operator_or_punct (Lexer_init '';=''))) = 1"
    by (simp add: p3 l advance_pos del: One_nat_def)
  from h1 h2 h3 r1 r2 r3 show ?thesis
    by blast
qed

subsection \<open>The cursor: what advancing changes and what it keeps\<close>

lemma advance_fst: "fst (advance s) = peek s 0"
  by (simp add: advance_def Let_def)

lemma advance_frame:
  "lx_text (snd (advance s)) = lx_text s"
  "lx_n (snd (advance s)) = lx_n s"
  "lx_lettab (snd (advance s)) = lx_lettab s"
  "lx_letseq (snd (advance s)) = lx_letseq s"
  by (simp_all add: advance_def Let_def)

lemma advance_line_col:
  "lx_line (snd (advance s)) = (if peek s 0 = [CHR 0x0A] then lx_line s + 1 else lx_line s)"
  "lx_col (snd (advance s)) = (if peek s 0 = [CHR 0x0A] then 1 else lx_col s + 1)"
  by (simp_all add: advance_def Let_def)

lemma peek_in_text:
  "lx_n s = length (lx_text s) \<Longrightarrow> lx_pos s + k < lx_n s \<Longrightarrow>
     peek s k = [lx_text s ! (lx_pos s + k)]"
  by (simp add: peek_def)

lemma Lexer_init_cursor_inv: "cursor_inv (Lexer_init t)"
  by (simp add: cursor_inv_def Lexer_init_def position_after_def)

lemma cursor_inv_advance:
  assumes "cursor_inv s" and "\<not> at_end s"
  shows "cursor_inv (snd (advance s))"
proof -
  from assms have n: "lx_n s = length (lx_text s)" and lt: "lx_pos s < length (lx_text s)"
    and lc: "(lx_line s, lx_col s) = position_after (take (lx_pos s) (lx_text s))"
    by (simp_all add: cursor_inv_def at_end_def)
  from n lt have pk: "peek s 0 = [lx_text s ! lx_pos s]"
    by (simp add: peek_def)
  from lt have tk: "take (Suc (lx_pos s)) (lx_text s) = take (lx_pos s) (lx_text s) @ [lx_text s ! lx_pos s]"
    by (rule take_Suc_conv_app_nth)
  have "position_after (take (Suc (lx_pos s)) (lx_text s)) =
          step_position (lx_line s, lx_col s) (lx_text s ! lx_pos s)"
    by (simp add: tk position_after_def lc [unfolded position_after_def])
  with n lt pk show ?thesis
    by (simp add: cursor_inv_def advance_frame advance_pos advance_line_col step_position_def)
qed

lemma advances_trans: "advances s s' \<Longrightarrow> advances s' s'' \<Longrightarrow> advances s s''"
  by (induction rule: advances.induct) (auto intro: advances.intros)

lemma advances_one: "\<not> at_end s \<Longrightarrow> advances s (snd (advance s))"
  by (blast intro: advances.intros)

lemma advances_frame:
  "advances s s' \<Longrightarrow>
     lx_text s' = lx_text s \<and> lx_n s' = lx_n s \<and> lx_lettab s' = lx_lettab s \<and>
     lx_letseq s' = lx_letseq s \<and> lx_pos s \<le> lx_pos s'"
  by (induction rule: advances.induct) (auto simp: advance_frame advance_pos)

lemma advances_cursor_inv: "advances s s' \<Longrightarrow> cursor_inv s \<Longrightarrow> cursor_inv s'"
  by (induction rule: advances.induct) (auto simp: cursor_inv_advance)

lemma skip_ws_while_advances: "advances s (snd (skip_ws_while s moved))"
proof (induction s moved rule: skip_ws_while.induct)
  case (1 s moved)
  show ?case
  proof (cases "\<not> at_end s \<and> str_in (peek s 0) [CHR '' '', CHR 0x09, CHR 0x0D, CHR 0x0A]")
    case True
    with "1.IH" [OF True] show ?thesis
      by (simp only: skip_ws_while_step [OF True]) (blast intro: advances_step)
  next
    case False
    then show ?thesis
      by (simp add: skip_ws_while_stop [OF False] advances_refl)
  qed
qed

lemma skip_comment_while_advances: "advances s (skip_comment_while s)"
proof (induction s rule: skip_comment_while.induct)
  case (1 s)
  show ?case
  proof (cases "\<not> at_end s \<and> peek s 0 \<noteq> [CHR 0x0A]")
    case True
    with "1.IH" [OF True] show ?thesis
      by (simp only: skip_comment_while_step [OF True]) (blast intro: advances_step)
  next
    case False
    then show ?thesis
      by (simp add: skip_comment_while_stop [OF False] advances_refl)
  qed
qed

lemma ident_while_advances: "advances s (snd (ident_while s lexeme))"
proof (induction s lexeme rule: ident_while.induct)
  case (1 s lexeme)
  show ?case
  proof (cases "\<not> at_end s \<and> (isalnum (peek s 0) \<or> peek s 0 = ''_'')")
    case True
    with "1.IH" [OF True] show ?thesis
      by (simp only: ident_while_step [OF True]) (blast intro: advances_step)
  next
    case False
    then show ?thesis
      by (simp add: ident_while_stop [OF False] advances_refl)
  qed
qed

lemma number_while_advances: "advances s (snd (number_while s lexeme))"
proof (induction s lexeme rule: number_while.induct)
  case (1 s lexeme)
  show ?case
  proof (cases "\<not> at_end s \<and> isdigit (peek s 0)")
    case True
    with "1.IH" [OF True] show ?thesis
      by (simp only: number_while_step [OF True]) (blast intro: advances_step)
  next
    case False
    then show ?thesis
      by (simp add: number_while_stop [OF False] advances_refl)
  qed
qed

text \<open>One turn of the loop of \<^verbatim>\<open>skip_ws_and_comments\<close>, as the function unfolds.\<close>

lemma skip_ws_and_comments_unfold:
  "skip_ws_and_comments s =
    (let s1 = snd (skip_ws_while s False) in
     if peek s1 0 = ''/'' \<and> peek s1 1 = ''/''
     then skip_ws_and_comments (skip_comment_while s1)
     else if fst (skip_ws_while s False) then skip_ws_and_comments s1 else s1)"
  by (subst skip_ws_and_comments.simps) (simp add: Let_def split: prod.splits)

text \<open>Induction over the turns of that loop.\<close>

lemma skip_ws_and_comments_turns [case_names comment blank stop]:
  assumes comment: "\<And>s s1. s1 = snd (skip_ws_while s False) \<Longrightarrow>
      peek s1 0 = ''/'' \<and> peek s1 1 = ''/'' \<Longrightarrow>
      skip_ws_and_comments s = skip_ws_and_comments (skip_comment_while s1) \<Longrightarrow>
      P (skip_comment_while s1) \<Longrightarrow> P s"
    and blank: "\<And>s s1. s1 = snd (skip_ws_while s False) \<Longrightarrow>
      \<not> (peek s1 0 = ''/'' \<and> peek s1 1 = ''/'') \<Longrightarrow> fst (skip_ws_while s False) \<Longrightarrow>
      skip_ws_and_comments s = skip_ws_and_comments s1 \<Longrightarrow> P s1 \<Longrightarrow> P s"
    and stop: "\<And>s s1. s1 = snd (skip_ws_while s False) \<Longrightarrow>
      \<not> (peek s1 0 = ''/'' \<and> peek s1 1 = ''/'') \<Longrightarrow> \<not> fst (skip_ws_while s False) \<Longrightarrow>
      skip_ws_and_comments s = s1 \<Longrightarrow> P s"
  shows "P s"
proof (induction s rule: measure_induct_rule [of remaining])
  case (less s)
  define s1 where "s1 = snd (skip_ws_while s False)"
  have ws: "skip_ws_while s False = (fst (skip_ws_while s False), s1)"
    by (simp add: s1_def)
  have le: "remaining s1 \<le> remaining s"
    and lt: "fst (skip_ws_while s False) \<longrightarrow> remaining s1 < remaining s"
    using skip_ws_while_remaining [OF ws] by auto
  show ?case
  proof (cases "peek s1 0 = ''/'' \<and> peek s1 1 = ''/''")
    case True
    then have "remaining (skip_comment_while s1) < remaining s1"
      by (simp add: skip_comment_while_progress)
    with le have "P (skip_comment_while s1)"
      by (simp add: less.IH)
    moreover
    have "skip_ws_and_comments s = skip_ws_and_comments (skip_comment_while s1)"
      by (subst skip_ws_and_comments_unfold)
        (simp only: Let_def if_P [OF True [unfolded s1_def]] s1_def)
    ultimately show ?thesis
      using True s1_def by (blast intro: comment)
  next
    case False
    show ?thesis
    proof (cases "fst (skip_ws_while s False)")
      case True
      with lt have "P s1"
        by (simp add: less.IH)
      moreover have "skip_ws_and_comments s = skip_ws_and_comments s1"
        by (subst skip_ws_and_comments_unfold)
          (simp only: Let_def if_not_P [OF False [unfolded s1_def]] if_P [OF True] s1_def)
      ultimately show ?thesis
        using False True s1_def by (blast intro: blank)
    next
      case nm: False
      have "skip_ws_and_comments s = s1"
        by (subst skip_ws_and_comments_unfold)
          (simp only: Let_def if_not_P [OF False [unfolded s1_def]] if_not_P [OF nm] s1_def)
      with False nm s1_def show ?thesis
        by (blast intro: stop)
    qed
  qed
qed

lemma skip_ws_and_comments_advances: "advances s (skip_ws_and_comments s)"
proof (induction s rule: skip_ws_and_comments_turns)
  case (comment s s1)
  from comment(1) have "advances s s1"
    using skip_ws_while_advances [of s False] by simp
  with comment(3,4) skip_comment_while_advances [of s1] show ?case
    by (auto intro: advances_trans)
next
  case (blank s s1)
  from blank(1) have "advances s s1"
    using skip_ws_while_advances [of s False] by simp
  with blank(4,5) show ?case
    by (auto intro: advances_trans)
next
  case (stop s s1)
  then show ?case
    using skip_ws_while_advances [of s False] by simp
qed

subsection \<open>Texts of blanks and comments\<close>

lemma str_in_blank:
  "str_in [c] [CHR '' '', CHR 0x09, CHR 0x0D, CHR 0x0A] \<longleftrightarrow>
     c \<in> {CHR '' '', CHR 0x09, CHR 0x0D, CHR 0x0A}"
  by auto

lemma drop_at_cursor:
  "lx_n s = length (lx_text s) \<Longrightarrow> \<not> at_end s \<Longrightarrow>
     drop (lx_pos s) (lx_text s) = lx_text s ! lx_pos s # drop (lx_pos (snd (advance s))) (lx_text s)"
  by (simp add: at_end_def advance_pos Cons_nth_drop_Suc)

lemma drop_at_end:
  "lx_n s = length (lx_text s) \<Longrightarrow> at_end s \<Longrightarrow> drop (lx_pos s) (lx_text s) = []"
  by (simp add: at_end_def)

lemma peek_at_cursor:
  "lx_n s = length (lx_text s) \<Longrightarrow> \<not> at_end s \<Longrightarrow> peek s 0 = [lx_text s ! lx_pos s]"
  by (simp add: at_end_def peek_def)

lemma peek_of_drop:
  assumes "lx_n s = length (lx_text s)"
  shows "peek s k = take 1 (drop (lx_pos s + k) (lx_text s))"
proof (cases "lx_pos s + k < length (lx_text s)")
  case True
  then have "drop (lx_pos s + k) (lx_text s) =
      lx_text s ! (lx_pos s + k) # drop (Suc (lx_pos s + k)) (lx_text s)"
    by (simp add: Cons_nth_drop_Suc)
  with assms True show ?thesis
    by (simp add: peek_def)
next
  case False
  with assms show ?thesis
    by (simp add: peek_def)
qed

lemma skip_ws_while_rest:
  "lx_n s = length (lx_text s) \<Longrightarrow>
     drop (lx_pos (snd (skip_ws_while s moved))) (lx_text s) =
       dropWhile (\<lambda>c. c \<in> {CHR '' '', CHR 0x09, CHR 0x0D, CHR 0x0A}) (drop (lx_pos s) (lx_text s))"
proof (induction s moved rule: skip_ws_while.induct)
  case (1 s moved)
  note n = "1.prems"
  show ?case
  proof (cases "\<not> at_end s \<and> str_in (peek s 0) [CHR '' '', CHR 0x09, CHR 0x0D, CHR 0x0A]")
    case True
    then have open_: "\<not> at_end s"
      and blank: "str_in (peek s 0) [CHR '' '', CHR 0x09, CHR 0x0D, CHR 0x0A]"
      by blast+
    from blank have c: "lx_text s ! lx_pos s \<in> {CHR '' '', CHR 0x09, CHR 0x0D, CHR 0x0A}"
      by (simp only: peek_at_cursor [OF n open_] str_in_blank)
    from "1.IH" [OF True] n
    have "drop (lx_pos (snd (skip_ws_while (snd (advance s)) True))) (lx_text s) =
       dropWhile (\<lambda>c. c \<in> {CHR '' '', CHR 0x09, CHR 0x0D, CHR 0x0A})
         (drop (lx_pos (snd (advance s))) (lx_text s))"
      by (simp add: advance_frame)
    with c show ?thesis
      by (simp add: skip_ws_while_step [OF True] drop_at_cursor [OF n open_])
  next
    case False
    show ?thesis
    proof (cases "at_end s")
      case True
      with n show ?thesis
        by (simp add: skip_ws_while_stop [OF False] drop_at_end)
    next
      case open_: False
      with False have "\<not> str_in (peek s 0) [CHR '' '', CHR 0x09, CHR 0x0D, CHR 0x0A]"
        by blast
      then have "lx_text s ! lx_pos s \<notin> {CHR '' '', CHR 0x09, CHR 0x0D, CHR 0x0A}"
        by (simp only: peek_at_cursor [OF n open_] str_in_blank not_False_eq_True)
      then show ?thesis
        by (simp add: skip_ws_while_stop [OF False] drop_at_cursor [OF n open_])
    qed
  qed
qed

lemma skip_comment_while_rest:
  "lx_n s = length (lx_text s) \<Longrightarrow>
     drop (lx_pos (skip_comment_while s)) (lx_text s) =
       dropWhile (\<lambda>c. c \<noteq> CHR 0x0A) (drop (lx_pos s) (lx_text s))"
proof (induction s rule: skip_comment_while.induct)
  case (1 s)
  note n = "1.prems"
  show ?case
  proof (cases "\<not> at_end s \<and> peek s 0 \<noteq> [CHR 0x0A]")
    case True
    then have open_: "\<not> at_end s" and line: "peek s 0 \<noteq> [CHR 0x0A]"
      by blast+
    from line have c: "lx_text s ! lx_pos s \<noteq> CHR 0x0A"
      by (simp add: peek_at_cursor [OF n open_])
    from "1.IH" [OF True] n
    have "drop (lx_pos (skip_comment_while (snd (advance s)))) (lx_text s) =
       dropWhile (\<lambda>c. c \<noteq> CHR 0x0A) (drop (lx_pos (snd (advance s))) (lx_text s))"
      by (simp add: advance_frame)
    with c show ?thesis
      by (simp add: skip_comment_while_step [OF True] drop_at_cursor [OF n open_])
  next
    case False
    show ?thesis
    proof (cases "at_end s")
      case True
      with n show ?thesis
        by (simp add: skip_comment_while_stop [OF False] drop_at_end)
    next
      case open_: False
      with False have "peek s 0 = [CHR 0x0A]"
        by blast
      then have "lx_text s ! lx_pos s = CHR 0x0A"
        by (simp add: peek_at_cursor [OF n open_])
      then show ?thesis
        by (simp add: skip_comment_while_stop [OF False] drop_at_cursor [OF n open_])
    qed
  qed
qed

lemma only_trivia_dropWhile_blank:
  "only_trivia cs \<Longrightarrow>
     only_trivia (dropWhile (\<lambda>c. c \<in> {CHR '' '', CHR 0x09, CHR 0x0D, CHR 0x0A}) cs)"
  by (induction cs) (auto split: if_splits)

lemma in_comment_dropWhile:
  "in_comment cs \<Longrightarrow> only_trivia (dropWhile (\<lambda>c. c \<noteq> CHR 0x0A) cs)"
  by (induction cs) (auto split: if_splits)

lemma only_trivia_slash:
  assumes "only_trivia (c # r)" and "c \<notin> {CHR '' '', CHR 0x09, CHR 0x0D, CHR 0x0A}"
  shows "c = CHR ''/'' \<and> (\<exists>ds. r = CHR ''/'' # ds \<and> in_comment ds)"
  using assms by (cases r) (auto split: if_splits)

lemma rest_two_chars:
  assumes n: "lx_n s = length (lx_text s)"
  shows "(peek s 0 = [c] \<and> peek s 1 = [d]) \<longleftrightarrow>
         (\<exists>ds. drop (lx_pos s) (lx_text s) = c # d # ds)"
proof
  assume pk: "peek s 0 = [c] \<and> peek s 1 = [d]"
  then have "lx_pos s + 1 < length (lx_text s)"
    using n by (auto simp: peek_def split: if_splits)
  then have "drop (lx_pos s) (lx_text s) =
      lx_text s ! lx_pos s # lx_text s ! (lx_pos s + 1) # drop (lx_pos s + 2) (lx_text s)"
    by (simp add: Cons_nth_drop_Suc [symmetric])
  moreover from pk n have "lx_text s ! lx_pos s = c" "lx_text s ! (lx_pos s + 1) = d"
    by (auto simp: peek_def split: if_splits)
  ultimately show "\<exists>ds. drop (lx_pos s) (lx_text s) = c # d # ds"
    by simp
next
  assume "\<exists>ds. drop (lx_pos s) (lx_text s) = c # d # ds"
  then obtain ds where r: "drop (lx_pos s) (lx_text s) = c # d # ds"
    by blast
  have "drop (lx_pos s + 1) (lx_text s) = drop 1 (drop (lx_pos s) (lx_text s))"
    by (simp add: add.commute)
  with r have "drop (lx_pos s + 1) (lx_text s) = d # ds"
    by simp
  with r show "peek s 0 = [c] \<and> peek s 1 = [d]"
    using peek_of_drop [OF n, of 0] peek_of_drop [OF n, of 1] by simp
qed

lemma trivia_after_blanks:
  assumes n: "lx_n s = length (lx_text s)"
    and t: "only_trivia (drop (lx_pos s) (lx_text s))"
    and s1: "s1 = snd (skip_ws_while s False)"
  shows "lx_n s1 = length (lx_text s1)"
    and "lx_text s1 = lx_text s"
    and "only_trivia (drop (lx_pos s1) (lx_text s1))"
    and "drop (lx_pos s1) (lx_text s1) =
           dropWhile (\<lambda>c. c \<in> {CHR '' '', CHR 0x09, CHR 0x0D, CHR 0x0A})
             (drop (lx_pos s) (lx_text s))"
proof -
  have adv: "advances s s1"
    unfolding s1 by (rule skip_ws_while_advances)
  from advances_frame [OF adv] show fr: "lx_text s1 = lx_text s"
    by blast
  from advances_frame [OF adv] n fr show "lx_n s1 = length (lx_text s1)"
    by (simp only:)
  have "drop (lx_pos s1) (lx_text s) =
      dropWhile (\<lambda>c. c \<in> {CHR '' '', CHR 0x09, CHR 0x0D, CHR 0x0A}) (drop (lx_pos s) (lx_text s))"
    unfolding s1 using n by (rule skip_ws_while_rest)
  then show rest: "drop (lx_pos s1) (lx_text s1) =
      dropWhile (\<lambda>c. c \<in> {CHR '' '', CHR 0x09, CHR 0x0D, CHR 0x0A}) (drop (lx_pos s) (lx_text s))"
    by (simp only: fr)
  from only_trivia_dropWhile_blank [OF t] show "only_trivia (drop (lx_pos s1) (lx_text s1))"
    by (simp only: rest)
qed

lemma trivia_after_comment:
  assumes n1: "lx_n s1 = length (lx_text s1)"
    and t1: "only_trivia (drop (lx_pos s1) (lx_text s1))"
    and sl: "peek s1 0 = ''/'' \<and> peek s1 1 = ''/''"
  shows "lx_n (skip_comment_while s1) = length (lx_text (skip_comment_while s1))"
    and "only_trivia (drop (lx_pos (skip_comment_while s1)) (lx_text (skip_comment_while s1)))"
proof -
  have adv: "advances s1 (skip_comment_while s1)"
    by (rule skip_comment_while_advances)
  from advances_frame [OF adv] have fr: "lx_text (skip_comment_while s1) = lx_text s1"
    by blast
  from advances_frame [OF adv] n1 fr
  show "lx_n (skip_comment_while s1) = length (lx_text (skip_comment_while s1))"
    by (simp only:)
  from sl obtain ds where r: "drop (lx_pos s1) (lx_text s1) = CHR ''/'' # CHR ''/'' # ds"
    using rest_two_chars [OF n1, of "CHR ''/''" "CHR ''/''"] by blast
  from t1 have "in_comment ds"
    unfolding r by simp
  then have "only_trivia (dropWhile (\<lambda>c. c \<noteq> CHR 0x0A) ds)"
    by (rule in_comment_dropWhile)
  moreover have "dropWhile (\<lambda>c. c \<noteq> CHR 0x0A) (drop (lx_pos s1) (lx_text s1)) =
      dropWhile (\<lambda>c. c \<noteq> CHR 0x0A) ds"
    unfolding r by simp
  ultimately show
    "only_trivia (drop (lx_pos (skip_comment_while s1)) (lx_text (skip_comment_while s1)))"
    by (simp only: fr skip_comment_while_rest [OF n1])
qed

lemma trivia_exhausted:
  assumes n1: "lx_n s1 = length (lx_text s1)"
    and t1: "only_trivia (drop (lx_pos s1) (lx_text s1))"
    and rest: "drop (lx_pos s1) (lx_text s1) =
        dropWhile (\<lambda>c. c \<in> {CHR '' '', CHR 0x09, CHR 0x0D, CHR 0x0A}) cs"
    and nsl: "\<not> (peek s1 0 = ''/'' \<and> peek s1 1 = ''/'')"
  shows "at_end s1"
proof -
  have "drop (lx_pos s1) (lx_text s1) = []"
  proof (cases "drop (lx_pos s1) (lx_text s1)")
    case Nil
    then show ?thesis .
  next
    case (Cons c r)
    have "dropWhile (\<lambda>c. c \<in> {CHR '' '', CHR 0x09, CHR 0x0D, CHR 0x0A}) cs \<noteq> []"
      unfolding rest [symmetric] Cons by simp
    then have "hd (dropWhile (\<lambda>c. c \<in> {CHR '' '', CHR 0x09, CHR 0x0D, CHR 0x0A}) cs)
        \<notin> {CHR '' '', CHR 0x09, CHR 0x0D, CHR 0x0A}"
      by (rule hd_dropWhile)
    then have "c \<notin> {CHR '' '', CHR 0x09, CHR 0x0D, CHR 0x0A}"
      unfolding rest [symmetric] Cons by (simp only: list.sel not_False_eq_True)
    moreover from t1 have "only_trivia (c # r)"
      unfolding Cons .
    ultimately have "c = CHR ''/'' \<and> (\<exists>ds. r = CHR ''/'' # ds \<and> in_comment ds)"
      by (rule only_trivia_slash [rotated])
    then have "\<exists>ds. drop (lx_pos s1) (lx_text s1) = CHR ''/'' # CHR ''/'' # ds"
      unfolding Cons by blast
    then have "peek s1 0 = ''/'' \<and> peek s1 1 = ''/''"
      by (simp only: rest_two_chars [OF n1])
    with nsl show ?thesis
      by blast
  qed
  then have "length (lx_text s1) \<le> lx_pos s1"
    by (simp only: drop_eq_Nil)
  with n1 show ?thesis
    by (simp only: at_end_def)
qed

lemma skip_ws_and_comments_trivia:
  "lx_n s = length (lx_text s) \<Longrightarrow> only_trivia (drop (lx_pos s) (lx_text s)) \<Longrightarrow>
     at_end (skip_ws_and_comments s)"
proof (induction s rule: skip_ws_and_comments_turns)
  case (comment s s1)
  note after = trivia_after_blanks [OF comment.prems comment(1)]
  note cm = trivia_after_comment [OF after(1) after(3) comment(2)]
  from cm have "at_end (skip_ws_and_comments (skip_comment_while s1))"
    by (rule comment.IH)
  then show ?case
    by (simp only: comment(3))
next
  case (blank s s1)
  note after = trivia_after_blanks [OF blank.prems blank(1)]
  from after(1) after(3) have "at_end (skip_ws_and_comments s1)"
    by (rule blank.IH)
  then show ?case
    by (simp only: blank(4))
next
  case (stop s s1)
  note after = trivia_after_blanks [OF stop.prems stop(1)]
  from after(1) after(3) after(4) stop(2) have "at_end s1"
    by (rule trivia_exhausted)
  then show ?case
    by (simp only: stop(4))
qed

text \<open>
  Claim C7. On a text of blanks and \<^verbatim>\<open>//\<close> comments alone, \<^verbatim>\<open>tokenize\<close> returns exactly one
  token, the end marker, at the line and column that follow the last character of the
  text (all of which was skipped).
\<close>

theorem tokenize_only_trivia:
  assumes "only_trivia t"
  shows "fst (tokenize (Lexer_init t)) =
    Inr [\<lparr>tok_type = ''EOF'', tok_lexeme = [], tok_line = fst (position_after t),
           tok_col = snd (position_after t), tok_value = None, tok_lid = None\<rparr>]"
proof -
  define s0 where "s0 = skip_ws_and_comments (Lexer_init t)"
  have adv: "advances (Lexer_init t) s0"
    unfolding s0_def by (rule skip_ws_and_comments_advances)
  then have inv: "cursor_inv s0"
    by (rule advances_cursor_inv) (rule Lexer_init_cursor_inv)
  from adv have fr: "lx_text s0 = t" "lx_n s0 = length t"
    using advances_frame [of "Lexer_init t" s0] by (simp_all add: Lexer_init_def)
  from assms have e: "at_end s0"
    unfolding s0_def by (intro skip_ws_and_comments_trivia) (simp_all add: Lexer_init_def)
  with inv fr have "lx_pos s0 = length t"
    by (simp add: cursor_inv_def at_end_def)
  with inv fr have "(lx_line s0, lx_col s0) = position_after t"
    by (simp add: cursor_inv_def)
  then have lc: "lx_line s0 = fst (position_after t)" "lx_col s0 = snd (position_after t)"
    by (simp_all add: prod_eq_iff)
  from e have "next_token (Lexer_init t) =
      (Inr \<lparr>tok_type = ''EOF'', tok_lexeme = [], tok_line = lx_line s0, tok_col = lx_col s0,
             tok_value = None, tok_lid = None\<rparr>, s0)"
    by (simp add: next_token_def Let_def s0_def)
  then show ?thesis
    unfolding tokenize_def by (subst tokenize_while.simps) (simp add: lc)
qed

theorem tokenize_only_trivia_witness:
  "only_trivia ('' //x'' @ [CHR 0x0A, CHR 0x09]) \<and>
   fst (tokenize (Lexer_init ('' //x'' @ [CHR 0x0A, CHR 0x09]))) =
    Inr [\<lparr>tok_type = ''EOF'', tok_lexeme = [], tok_line = 2, tok_col = 2,
           tok_value = None, tok_lid = None\<rparr>]"
proof -
  have t: "only_trivia ('' //x'' @ [CHR 0x0A, CHR 0x09])"
    by simp
  have p: "position_after ('' //x'' @ [CHR 0x0A, CHR 0x09]) = (2, 2)"
    by (simp add: position_after_def step_position_def)
  from tokenize_only_trivia [OF t] t show ?thesis
    by (simp only: p fst_conv snd_conv simp_thms)
qed

subsection \<open>Maximal munch\<close>

lemma ident_guard_char:
  "isalnum [c] \<or> [c] = ''_'' \<longleftrightarrow> char_isalnum c \<or> c = CHR ''_''"
  by (simp add: isalnum_def)

lemma ident_while_run:
  "lx_n s = length (lx_text s) \<Longrightarrow>
     fst (ident_while s lexeme) =
       lexeme @ takeWhile (\<lambda>c. char_isalnum c \<or> c = CHR ''_'') (drop (lx_pos s) (lx_text s)) \<and>
     lx_pos (snd (ident_while s lexeme)) =
       lx_pos s + length (takeWhile (\<lambda>c. char_isalnum c \<or> c = CHR ''_'') (drop (lx_pos s) (lx_text s)))"
proof (induction s lexeme rule: ident_while.induct)
  case (1 s lexeme)
  note n = "1.prems"
  let ?P = "\<lambda>c. char_isalnum c \<or> c = CHR ''_''"
  show ?case
  proof (cases "\<not> at_end s \<and> (isalnum (peek s 0) \<or> peek s 0 = ''_'')")
    case True
    then have open_: "\<not> at_end s" and g: "isalnum (peek s 0) \<or> peek s 0 = ''_''"
      by blast+
    from g have c: "?P (lx_text s ! lx_pos s)"
      by (simp only: peek_at_cursor [OF n open_] ident_guard_char)
    from n have "lx_n (snd (advance s)) = length (lx_text (snd (advance s)))"
      by (simp add: advance_frame)
    from "1.IH" [OF True this]
    have "fst (ident_while (snd (advance s)) (lexeme @ fst (advance s))) =
        (lexeme @ [lx_text s ! lx_pos s]) @
          takeWhile ?P (drop (lx_pos (snd (advance s))) (lx_text s)) \<and>
      lx_pos (snd (ident_while (snd (advance s)) (lexeme @ fst (advance s)))) =
        lx_pos (snd (advance s)) +
          length (takeWhile ?P (drop (lx_pos (snd (advance s))) (lx_text s)))"
      by (simp only: advance_frame advance_fst peek_at_cursor [OF n open_])
    with c show ?thesis
      by (simp add: ident_while_step [OF True] drop_at_cursor [OF n open_] advance_pos)
  next
    case False
    show ?thesis
    proof (cases "at_end s")
      case True
      with n show ?thesis
        by (simp add: ident_while_stop [OF False] drop_at_end)
    next
      case open_: False
      with False have "\<not> (isalnum (peek s 0) \<or> peek s 0 = ''_'')"
        by blast
      then have "\<not> ?P (lx_text s ! lx_pos s)"
        by (simp only: peek_at_cursor [OF n open_] ident_guard_char not_False_eq_True)
      then show ?thesis
        by (simp add: ident_while_stop [OF False] drop_at_cursor [OF n open_])
    qed
  qed
qed

lemma digit_guard_char: "isdigit [c] \<longleftrightarrow> char_isdigit c"
  by (simp add: isdigit_def)

lemma number_while_run:
  "lx_n s = length (lx_text s) \<Longrightarrow>
     fst (number_while s lexeme) =
       lexeme @ takeWhile char_isdigit (drop (lx_pos s) (lx_text s)) \<and>
     lx_pos (snd (number_while s lexeme)) =
       lx_pos s + length (takeWhile char_isdigit (drop (lx_pos s) (lx_text s)))"
proof (induction s lexeme rule: number_while.induct)
  case (1 s lexeme)
  note n = "1.prems"
  show ?case
  proof (cases "\<not> at_end s \<and> isdigit (peek s 0)")
    case True
    then have open_: "\<not> at_end s" and g: "isdigit (peek s 0)"
      by blast+
    from g have c: "char_isdigit (lx_text s ! lx_pos s)"
      by (simp only: peek_at_cursor [OF n open_] digit_guard_char)
    from n have "lx_n (snd (advance s)) = length (lx_text (snd (advance s)))"
      by (simp add: advance_frame)
    from "1.IH" [OF True this]
    have "fst (number_while (snd (advance s)) (lexeme @ fst (advance s))) =
        (lexeme @ [lx_text s ! lx_pos s]) @
          takeWhile char_isdigit (drop (lx_pos (snd (advance s))) (lx_text s)) \<and>
      lx_pos (snd (number_while (snd (advance s)) (lexeme @ fst (advance s)))) =
        lx_pos (snd (advance s)) +
          length (takeWhile char_isdigit (drop (lx_pos (snd (advance s))) (lx_text s)))"
      by (simp only: advance_frame advance_fst peek_at_cursor [OF n open_])
    with c show ?thesis
      by (simp add: number_while_step [OF True] drop_at_cursor [OF n open_] advance_pos)
  next
    case False
    show ?thesis
    proof (cases "at_end s")
      case True
      with n show ?thesis
        by (simp add: number_while_stop [OF False] drop_at_end)
    next
      case open_: False
      with False have "\<not> isdigit (peek s 0)"
        by blast
      then have "\<not> char_isdigit (lx_text s ! lx_pos s)"
        by (simp only: peek_at_cursor [OF n open_] digit_guard_char not_False_eq_True)
      then show ?thesis
        by (simp add: number_while_stop [OF False] drop_at_cursor [OF n open_])
    qed
  qed
qed

lemma KW_not_ID: "''KW_'' @ w \<noteq> ''ID''"
  by simp

lemma char_isalpha_isalnum: "char_isalpha c \<Longrightarrow> char_isalnum c"
  by (simp add: char_isalnum_def Let_def)

text \<open>
  What \<^verbatim>\<open>read_identifier_or_keyword\<close> returns when its guard holds, with \<open>run\<close> the longest
  prefix of the rest of the text made of alphanumeric characters and underscores.
\<close>

lemma read_identifier_or_keyword_token:
  assumes n: "lx_n s = length (lx_text s)"
    and g: "isalpha (peek s 0) \<or> peek s 0 = ''_''"
    and run: "run = takeWhile (\<lambda>c. char_isalnum c \<or> c = CHR ''_'') (drop (lx_pos s) (lx_text s))"
    and s2: "s2 = snd (ident_while (snd (advance s)) (fst (advance s)))"
  shows "read_identifier_or_keyword s =
      (Some \<lparr>tok_type = (if run \<in> KEYWORDS then ''KW_'' @ upper run else ''ID''),
             tok_lexeme = run, tok_line = lx_line s, tok_col = lx_col s, tok_value = None,
             tok_lid = (if run \<in> KEYWORDS then None
                        else Some (case lx_lettab s run of None \<Rightarrow> lx_letseq s | Some i \<Rightarrow> i))\<rparr>,
       if run \<in> KEYWORDS \<or> lx_lettab s run \<noteq> None then s2
       else s2\<lparr>lx_lettab := (lx_lettab s)(run \<mapsto> lx_letseq s), lx_letseq := lx_letseq s + 1\<rparr>)"
    and "advances s s2"
    and "lx_pos s2 = lx_pos s + length run"
    and "run \<noteq> []"
proof -
  let ?P = "\<lambda>c. char_isalnum c \<or> c = CHR ''_''"
  from g have open_: "\<not> at_end s"
    by (auto simp: peek_at_end isalpha_def)
  note pk = peek_at_cursor [OF n open_]
  from g have c: "?P (lx_text s ! lx_pos s)"
    unfolding pk by (auto simp: isalpha_def char_isalpha_isalnum)
  from n have n1: "lx_n (snd (advance s)) = length (lx_text (snd (advance s)))"
    by (simp add: advance_frame)
  from c have run': "run = lx_text s ! lx_pos s # takeWhile ?P (drop (lx_pos (snd (advance s))) (lx_text s))"
    unfolding run drop_at_cursor [OF n open_] by simp
  then show "run \<noteq> []"
    by simp
  from ident_while_run [OF n1, of "fst (advance s)"]
  have iw: "fst (ident_while (snd (advance s)) (fst (advance s))) = run"
    and pos: "lx_pos s2 = lx_pos s + length run"
    unfolding s2 run' by (simp_all add: advance_frame advance_fst pk advance_pos)
  show "lx_pos s2 = lx_pos s + length run"
    by (rule pos)
  have "advances (snd (advance s)) s2"
    unfolding s2 by (rule ident_while_advances)
  with open_ show adv: "advances s s2"
    by (rule advances_step)
  from advances_frame [OF adv] have fr: "lx_lettab s2 = lx_lettab s" "lx_letseq s2 = lx_letseq s"
    by simp_all
  have pair: "ident_while (snd (advance s)) (fst (advance s)) = (run, s2)"
    by (simp add: prod_eq_iff iw s2)
  from g show "read_identifier_or_keyword s =
      (Some \<lparr>tok_type = (if run \<in> KEYWORDS then ''KW_'' @ upper run else ''ID''),
             tok_lexeme = run, tok_line = lx_line s, tok_col = lx_col s, tok_value = None,
             tok_lid = (if run \<in> KEYWORDS then None
                        else Some (case lx_lettab s run of None \<Rightarrow> lx_letseq s | Some i \<Rightarrow> i))\<rparr>,
       if run \<in> KEYWORDS \<or> lx_lettab s run \<noteq> None then s2
       else s2\<lparr>lx_lettab := (lx_lettab s)(run \<mapsto> lx_letseq s), lx_letseq := lx_letseq s + 1\<rparr>)"
    by (auto simp: read_identifier_or_keyword_def Let_def pair fr)
qed

lemma card_KEYWORDS: "card KEYWORDS = 14"
  by (simp add: KEYWORDS_def)

text \<open>
  Claim C3. When the character under the cursor is alphabetic or an underscore,
  \<^verbatim>\<open>read_identifier_or_keyword\<close> consumes the maximal run of alphanumeric-or-underscore
  characters that starts there, and that run is the lexeme. If the lexeme is one of the
  14 reserved words (compared case-sensitively), the kind is \<^verbatim>\<open>KW_\<close> followed by the
  upper-cased word and no symbol id is attached (the symbol table is untouched);
  otherwise the kind is \<^verbatim>\<open>ID\<close> and the symbol id is the one the table holds for the
  lexeme, or the next id of the sequence, which is then stored. \<^verbatim>\<open>if\<close> is a keyword,
  \<^verbatim>\<open>ifx\<close> an identifier with the fresh id 0, and \<^verbatim>\<open>abc123\<close> is one identifier.
\<close>

theorem read_identifier_or_keyword_maximal_munch:
  assumes "lx_n s = length (lx_text s)"
    and "isalpha (peek s 0) \<or> peek s 0 = ''_''"
    and "run = takeWhile (\<lambda>c. char_isalnum c \<or> c = CHR ''_'') (drop (lx_pos s) (lx_text s))"
  shows "fst (read_identifier_or_keyword s) =
      Some \<lparr>tok_type = (if run \<in> KEYWORDS then ''KW_'' @ upper run else ''ID''),
            tok_lexeme = run, tok_line = lx_line s, tok_col = lx_col s, tok_value = None,
            tok_lid = (if run \<in> KEYWORDS then None
                       else Some (case lx_lettab s run of None \<Rightarrow> lx_letseq s | Some i \<Rightarrow> i))\<rparr> \<and>
    run \<noteq> [] \<and>
    lx_pos (snd (read_identifier_or_keyword s)) = lx_pos s + length run \<and>
    lx_lettab (snd (read_identifier_or_keyword s)) =
      (if run \<in> KEYWORDS \<or> lx_lettab s run \<noteq> None then lx_lettab s
       else (lx_lettab s)(run \<mapsto> lx_letseq s)) \<and>
    lx_letseq (snd (read_identifier_or_keyword s)) =
      (if run \<in> KEYWORDS \<or> lx_lettab s run \<noteq> None then lx_letseq s else lx_letseq s + 1) \<and>
    card KEYWORDS = 14 \<and>
    fst (tokenize (Lexer_init ''if'')) =
      Inr [\<lparr>tok_type = ''KW_IF'', tok_lexeme = ''if'', tok_line = 1, tok_col = 1,
             tok_value = None, tok_lid = None\<rparr>,
           \<lparr>tok_type = ''EOF'', tok_lexeme = [], tok_line = 1, tok_col = 3,
             tok_value = None, tok_lid = None\<rparr>] \<and>
    fst (tokenize (Lexer_init ''ifx'')) =
      Inr [\<lparr>tok_type = ''ID'', tok_lexeme = ''ifx'', tok_line = 1, tok_col = 1,
             tok_value = None, tok_lid = Some 0\<rparr>,
           \<lparr>tok_type = ''EOF'', tok_lexeme = [], tok_line = 1, tok_col = 4,
             tok_value = None, tok_lid = None\<rparr>] \<and>
    fst (tokenize (Lexer_init ''abc123'')) =
      Inr [\<lparr>tok_type = ''ID'', tok_lexeme = ''abc123'', tok_line = 1, tok_col = 1,
             tok_value = None, tok_lid = Some 0\<rparr>,
           \<lparr>tok_type = ''EOF'', tok_lexeme = [], tok_line = 1, tok_col = 7,
             tok_value = None, tok_lid = None\<rparr>]"
proof -
  note tk = read_identifier_or_keyword_token [OF assms refl]
  from advances_frame [OF tk(2)]
  have fr: "lx_lettab (snd (ident_while (snd (advance s)) (fst (advance s)))) = lx_lettab s"
    "lx_letseq (snd (ident_while (snd (advance s)) (fst (advance s)))) = lx_letseq s"
    by simp_all
  have general: "fst (read_identifier_or_keyword s) =
      Some \<lparr>tok_type = (if run \<in> KEYWORDS then ''KW_'' @ upper run else ''ID''),
            tok_lexeme = run, tok_line = lx_line s, tok_col = lx_col s, tok_value = None,
            tok_lid = (if run \<in> KEYWORDS then None
                       else Some (case lx_lettab s run of None \<Rightarrow> lx_letseq s | Some i \<Rightarrow> i))\<rparr> \<and>
    run \<noteq> [] \<and>
    lx_pos (snd (read_identifier_or_keyword s)) = lx_pos s + length run \<and>
    lx_lettab (snd (read_identifier_or_keyword s)) =
      (if run \<in> KEYWORDS \<or> lx_lettab s run \<noteq> None then lx_lettab s
       else (lx_lettab s)(run \<mapsto> lx_letseq s)) \<and>
    lx_letseq (snd (read_identifier_or_keyword s)) =
      (if run \<in> KEYWORDS \<or> lx_lettab s run \<noteq> None then lx_letseq s else lx_letseq s + 1)"
    using tk(3,4) by (simp add: tk(1) fr)
  have e1: "fst (tokenize (Lexer_init ''if'')) =
      Inr [\<lparr>tok_type = ''KW_IF'', tok_lexeme = ''if'', tok_line = 1, tok_col = 1,
             tok_value = None, tok_lid = None\<rparr>,
           \<lparr>tok_type = ''EOF'', tok_lexeme = [], tok_line = 1, tok_col = 3,
             tok_value = None, tok_lid = None\<rparr>]"
    by code_simp
  have e2: "fst (tokenize (Lexer_init ''ifx'')) =
      Inr [\<lparr>tok_type = ''ID'', tok_lexeme = ''ifx'', tok_line = 1, tok_col = 1,
             tok_value = None, tok_lid = Some 0\<rparr>,
           \<lparr>tok_type = ''EOF'', tok_lexeme = [], tok_line = 1, tok_col = 4,
             tok_value = None, tok_lid = None\<rparr>]"
    by code_simp
  have e3: "fst (tokenize (Lexer_init ''abc123'')) =
      Inr [\<lparr>tok_type = ''ID'', tok_lexeme = ''abc123'', tok_line = 1, tok_col = 1,
             tok_value = None, tok_lid = Some 0\<rparr>,
           \<lparr>tok_type = ''EOF'', tok_lexeme = [], tok_line = 1, tok_col = 7,
             tok_value = None, tok_lid = None\<rparr>]"
    by code_simp
  from general card_KEYWORDS e1 e2 e3 show ?thesis
    by blast
qed

theorem read_identifier_or_keyword_maximal_munch_witness:
  "lx_n (Lexer_init ''ifx+if'') = length (lx_text (Lexer_init ''ifx+if'')) \<and>
   (isalpha (peek (Lexer_init ''ifx+if'') 0) \<or> peek (Lexer_init ''ifx+if'') 0 = ''_'') \<and>
   ''ifx'' = takeWhile (\<lambda>c. char_isalnum c \<or> c = CHR ''_'')
     (drop (lx_pos (Lexer_init ''ifx+if'')) (lx_text (Lexer_init ''ifx+if''))) \<and>
   fst (read_identifier_or_keyword (Lexer_init ''ifx+if'')) =
     Some \<lparr>tok_type = ''ID'', tok_lexeme = ''ifx'', tok_line = 1, tok_col = 1,
           tok_value = None, tok_lid = Some 0\<rparr> \<and>
   lx_pos (snd (read_identifier_or_keyword (Lexer_init ''ifx+if''))) = 3 \<and>
   lx_letseq (snd (read_identifier_or_keyword (Lexer_init ''ifx+if''))) = 1"
proof -
  have h1: "lx_n (Lexer_init ''ifx+if'') = length (lx_text (Lexer_init ''ifx+if''))"
    by (simp add: Lexer_init_def)
  have h2: "isalpha (peek (Lexer_init ''ifx+if'') 0) \<or> peek (Lexer_init ''ifx+if'') 0 = ''_''"
    by code_simp
  have h3: "''ifx'' = takeWhile (\<lambda>c. char_isalnum c \<or> c = CHR ''_'')
     (drop (lx_pos (Lexer_init ''ifx+if'')) (lx_text (Lexer_init ''ifx+if'')))"
    by code_simp
  have k: "''ifx'' \<notin> KEYWORDS"
    by (simp add: KEYWORDS_def)
  have l: "lx_lettab (Lexer_init ''ifx+if'') ''ifx'' = None" "lx_letseq (Lexer_init ''ifx+if'') = 0"
    "lx_line (Lexer_init ''ifx+if'') = 1" "lx_col (Lexer_init ''ifx+if'') = 1"
    "lx_pos (Lexer_init ''ifx+if'') = 0"
    by (simp_all add: Lexer_init_def)
  from read_identifier_or_keyword_maximal_munch [OF h1 h2 h3]
  have "fst (read_identifier_or_keyword (Lexer_init ''ifx+if'')) =
     Some \<lparr>tok_type = ''ID'', tok_lexeme = ''ifx'', tok_line = 1, tok_col = 1,
           tok_value = None, tok_lid = Some 0\<rparr> \<and>
   lx_pos (snd (read_identifier_or_keyword (Lexer_init ''ifx+if''))) = 3 \<and>
   lx_letseq (snd (read_identifier_or_keyword (Lexer_init ''ifx+if''))) = 1"
    by (simp add: k l)
  with h1 h2 h3 show ?thesis
    by blast
qed

subsection \<open>The number recognizer\<close>

text \<open>
  What \<^verbatim>\<open>read_number\<close> does when its guard holds, with \<open>run\<close> the longest prefix of the
  rest of the text made of \<^verbatim>\<open>isdigit\<close> characters: the run is consumed, and \<^verbatim>\<open>int\<close> decides
  between a \<^verbatim>\<open>NUM\<close> token and a \<^verbatim>\<open>ValueError\<close>.
\<close>

lemma read_number_token:
  assumes n: "lx_n s = length (lx_text s)"
    and g: "isdigit (peek s 0)"
    and run: "run = takeWhile char_isdigit (drop (lx_pos s) (lx_text s))"
    and s2: "s2 = snd (number_while (snd (advance s)) (fst (advance s)))"
  shows "read_number s =
      (case py_int run of
         None \<Rightarrow> Inl (ValueError run)
       | Some v \<Rightarrow> Inr (Some \<lparr>tok_type = ''NUM'', tok_lexeme = run, tok_line = lx_line s,
                               tok_col = lx_col s, tok_value = Some v, tok_lid = None\<rparr>),
       s2)"
    and "advances s s2"
    and "lx_pos s2 = lx_pos s + length run"
    and "run \<noteq> []"
proof -
  from g have open_: "\<not> at_end s"
    by (auto simp: peek_at_end isdigit_def)
  note pk = peek_at_cursor [OF n open_]
  from g have c: "char_isdigit (lx_text s ! lx_pos s)"
    unfolding pk by (simp add: isdigit_def)
  from n have n1: "lx_n (snd (advance s)) = length (lx_text (snd (advance s)))"
    by (simp add: advance_frame)
  from c have run': "run = lx_text s ! lx_pos s #
      takeWhile char_isdigit (drop (lx_pos (snd (advance s))) (lx_text s))"
    unfolding run drop_at_cursor [OF n open_] by simp
  then show "run \<noteq> []"
    by simp
  from number_while_run [OF n1, of "fst (advance s)"]
  have iw: "fst (number_while (snd (advance s)) (fst (advance s))) = run"
    and pos: "lx_pos s2 = lx_pos s + length run"
    unfolding s2 run' by (simp_all add: advance_frame advance_fst pk advance_pos)
  show "lx_pos s2 = lx_pos s + length run"
    by (rule pos)
  have "advances (snd (advance s)) s2"
    unfolding s2 by (rule number_while_advances)
  with open_ show "advances s s2"
    by (rule advances_step)
  have pair: "number_while (snd (advance s)) (fst (advance s)) = (run, s2)"
    by (simp add: prod_eq_iff iw s2)
  from g show "read_number s =
      (case py_int run of
         None \<Rightarrow> Inl (ValueError run)
       | Some v \<Rightarrow> Inr (Some \<lparr>tok_type = ''NUM'', tok_lexeme = run, tok_line = lx_line s,
                               tok_col = lx_col s, tok_value = Some v, tok_lid = None\<rparr>),
       s2)"
    by (auto simp: read_number_def Let_def pair split: option.splits)
qed

text \<open>
  On a run of decimal digits within the limit of \<^verbatim>\<open>int\<close> the recognizer produces the
  \<^verbatim>\<open>NUM\<close> token with the decimal value of the run.
\<close>

lemma read_number_decimal:
  assumes "lx_n s = length (lx_text s)"
    and "isdigit (peek s 0)"
    and "run = takeWhile char_isdigit (drop (lx_pos s) (lx_text s))"
    and "list_all char_isdecimal run"
    and "length run \<le> max_str_digits"
  shows "fst (read_number s) =
      Inr (Some \<lparr>tok_type = ''NUM'', tok_lexeme = run, tok_line = lx_line s,
                  tok_col = lx_col s,
                  tok_value = Some (foldl (\<lambda>a c. 10 * a + digit_value c) 0 run),
                  tok_lid = None\<rparr>)"
    and "lx_pos (snd (read_number s)) = lx_pos s + length run"
proof -
  note tk = read_number_token [OF assms(1-3) refl]
  from tk(4) assms(4,5) have "py_int run = Some (foldl (\<lambda>a c. 10 * a + digit_value c) 0 run)"
    by (simp add: py_int_def)
  with tk(3) show "fst (read_number s) =
      Inr (Some \<lparr>tok_type = ''NUM'', tok_lexeme = run, tok_line = lx_line s,
                  tok_col = lx_col s,
                  tok_value = Some (foldl (\<lambda>a c. 10 * a + digit_value c) 0 run),
                  tok_lid = None\<rparr>)"
    and "lx_pos (snd (read_number s)) = lx_pos s + length run"
    by (simp_all add: tk(1))
qed

text \<open>A run of more than 4300 digits is rejected by \<^verbatim>\<open>int\<close>, whatever the digits.\<close>

lemma py_int_over_limit: "py_int (replicate 4301 c) = None"
  by (simp add: py_int_def max_str_digits_def)

text \<open>
  Claim C4 (the code departs from it). With the decimal digit \<^verbatim>\<open>1\<close> under the cursor and
  the superscript two U+00B2 after it, \<^verbatim>\<open>read_number\<close> consumes both characters, because
  \<^verbatim>\<open>str.isdigit\<close> holds of U+00B2, and \<^verbatim>\<open>int\<close> then rejects the lexeme: no numeric token is
  produced, and more than the run of decimal digits is consumed. The example of the
  claim, \<^verbatim>\<open>042\<close>, gives the value 42.
\<close>

theorem read_number_superscript_digit:
  "char_isdecimal (CHR ''1'') \<and> \<not> char_isdecimal (CHR 0xB2) \<and> char_isdigit (CHR 0xB2) \<and>
   fst (read_number (Lexer_init [CHR ''1'', CHR 0xB2])) = Inl (ValueError [CHR ''1'', CHR 0xB2]) \<and>
   lx_pos (snd (read_number (Lexer_init [CHR ''1'', CHR 0xB2]))) = 2 \<and>
   fst (tokenize (Lexer_init [CHR ''1'', CHR 0xB2])) = Inl (ValueError [CHR ''1'', CHR 0xB2]) \<and>
   fst (tokenize (Lexer_init ''042'')) =
     Inr [\<lparr>tok_type = ''NUM'', tok_lexeme = ''042'', tok_line = 1, tok_col = 1,
            tok_value = Some 42, tok_lid = None\<rparr>,
          \<lparr>tok_type = ''EOF'', tok_lexeme = [], tok_line = 1, tok_col = 4,
            tok_value = None, tok_lid = None\<rparr>]"
  by code_simp

text \<open>
  Claim C8 (the code departs from it). On the text made of the superscript two U+00B2
  alone, \<^verbatim>\<open>read_number\<close> neither produces a token nor returns \<^verbatim>\<open>None\<close>: it raises
  \<^verbatim>\<open>ValueError\<close>, with the cursor moved past the character it consumed.
\<close>

theorem read_number_consumes_without_token:
  "fst (read_number (Lexer_init [CHR 0xB2])) = Inl (ValueError [CHR 0xB2]) \<and>
   lx_pos (Lexer_init [CHR 0xB2]) = 0 \<and>
   lx_pos (snd (read_number (Lexer_init [CHR 0xB2]))) = 1 \<and>
   lx_col (snd (read_number (Lexer_init [CHR 0xB2]))) = 2"
  by code_simp

text \<open>
  Claim C9 (the code departs from it). \<^verbatim>\<open>tokenize\<close> has a third outcome beside the token
  list and the \<^verbatim>\<open>LexerError\<close>: on the text made of the superscript two U+00B2 alone it
  aborts with the \<^verbatim>\<open>ValueError\<close> of \<^verbatim>\<open>int\<close>.
\<close>

theorem tokenize_ValueError:
  "fst (tokenize (Lexer_init [CHR 0xB2])) = Inl (ValueError [CHR 0xB2])"
  by code_simp

subsection \<open>The lexical error\<close>

lemma read_number_error:
  "read_number s = (Inl e, s') \<Longrightarrow> \<exists>lexeme. e = ValueError lexeme"
  by (auto simp: read_number_def Let_def split: if_splits prod.splits option.splits)

text \<open>\<^verbatim>\<open>next_token\<close> after the end of the text has been ruled out, recognizer by recognizer.\<close>

lemma next_token_dispatch:
  assumes "s0 = skip_ws_and_comments s" and "\<not> at_end s0"
  shows "next_token s =
    (case fst (read_identifier_or_keyword s0) of
       Some tok \<Rightarrow> (Inr tok, snd (read_identifier_or_keyword s0))
     | None \<Rightarrow>
        (case fst (read_number s0) of
           Inl e \<Rightarrow> (Inl e, snd (read_number s0))
         | Inr (Some tok) \<Rightarrow> (Inr tok, snd (read_number s0))
         | Inr None \<Rightarrow>
            (case fst (read_operator_or_punct s0) of
               Some tok \<Rightarrow> (Inr tok, snd (read_operator_or_punct s0))
             | None \<Rightarrow> (Inl (LexerError (peek s0 0) (lx_line s0) (lx_col s0)), s0))))"
proof -
  obtain r1 s1 where id: "read_identifier_or_keyword s0 = (r1, s1)"
    by (cases "read_identifier_or_keyword s0")
  obtain r2 s2 where num: "read_number s0 = (r2, s2)"
    by (cases "read_number s0")
  obtain r3 s3 where op: "read_operator_or_punct s0 = (r3, s3)"
    by (cases "read_operator_or_punct s0")
  have s1: "r1 = None \<Longrightarrow> s1 = s0"
    using id by (simp add: read_identifier_or_keyword_None)
  have s2: "r2 = Inr None \<Longrightarrow> s2 = s0"
    using num by (simp add: read_number_None)
  have s3: "r3 = None \<Longrightarrow> s3 = s0"
    using op by (simp add: read_operator_or_punct_None)
  have "next_token s =
      (if at_end s0
       then (Inr \<lparr>tok_type = ''EOF'', tok_lexeme = [], tok_line = lx_line s0,
                   tok_col = lx_col s0, tok_value = None, tok_lid = None\<rparr>, s0)
       else
         case read_identifier_or_keyword s0 of
           (Some tok, s1) \<Rightarrow> (Inr tok, s1)
         | (None, s1) \<Rightarrow>
             (case read_number s1 of
                (Inl e, s2) \<Rightarrow> (Inl e, s2)
              | (Inr (Some tok), s2) \<Rightarrow> (Inr tok, s2)
              | (Inr None, s2) \<Rightarrow>
                  (case read_operator_or_punct s2 of
                     (Some tok, s3) \<Rightarrow> (Inr tok, s3)
                   | (None, s3) \<Rightarrow>
                       (Inl (LexerError (peek s3 0) (lx_line s3) (lx_col s3)), s3))))"
    unfolding assms(1) next_token_def Let_def ..
  with assms(2) show ?thesis
    by (cases r1; cases r2; cases r3)
      (auto simp: id num op s1 s2 s3 split: option.splits sum.splits)
qed

text \<open>
  \<^verbatim>\<open>next_token\<close> raises the \<^verbatim>\<open>LexerError\<close> exactly when, after blanks and comments have been
  skipped and the end of the text has been ruled out, each of the three recognizers
  returns \<^verbatim>\<open>None\<close>; the error carries the character under the cursor and the line and
  column of the cursor there.
\<close>

lemma next_token_LexerError_iff:
  "fst (next_token s) = Inl (LexerError ch l c) \<longleftrightarrow>
      \<not> at_end (skip_ws_and_comments s) \<and>
      fst (read_identifier_or_keyword (skip_ws_and_comments s)) = None \<and>
      fst (read_number (skip_ws_and_comments s)) = Inr None \<and>
      fst (read_operator_or_punct (skip_ws_and_comments s)) = None \<and>
      ch = peek (skip_ws_and_comments s) 0 \<and>
      l = lx_line (skip_ws_and_comments s) \<and>
      c = lx_col (skip_ws_and_comments s)"
proof -
  define s0 where "s0 = skip_ws_and_comments s"
  have "fst (next_token s) = Inl (LexerError ch l c) \<longleftrightarrow>
      \<not> at_end s0 \<and>
      fst (read_identifier_or_keyword s0) = None \<and>
      fst (read_number s0) = Inr None \<and>
      fst (read_operator_or_punct s0) = None \<and>
      ch = peek s0 0 \<and> l = lx_line s0 \<and> c = lx_col s0"
  proof (cases "at_end s0")
    case True
    then show ?thesis
      by (simp add: next_token_def Let_def s0_def [symmetric])
  next
    case False
    have "\<And>x y. read_number s0 = (Inl x, y) \<Longrightarrow> x \<noteq> LexerError ch l c"
      by (auto dest: read_number_error)
    then have "\<And>x. fst (read_number s0) = Inl x \<Longrightarrow> x \<noteq> LexerError ch l c"
      by (metis prod.collapse)
    with False show ?thesis
      by (auto simp: next_token_dispatch [OF s0_def False] split: option.splits sum.splits)
  qed
  then show ?thesis
    unfolding s0_def .
qed

text \<open>
  An error of \<^verbatim>\<open>next_token\<close> is what \<^verbatim>\<open>tokenize\<close> returns, at once and in place of the token
  list, whatever tokens it has collected.
\<close>

lemma tokenize_while_error:
  "fst (next_token s) = Inl e \<Longrightarrow> fst (tokenize_while s tokens) = Inl e"
  by (subst tokenize_while.simps) (auto split: prod.splits sum.splits)

text \<open>
  Claim C5 (the code departs from it). On the text made of the superscript two U+00B2
  alone nothing is skipped, the text is not at its end, and no recognizer produces a
  token: the identifier and the operator recognizer return \<^verbatim>\<open>None\<close> and the number
  recognizer raises. \<^verbatim>\<open>next_token\<close> then ends with that \<^verbatim>\<open>ValueError\<close>, where the claim and the
  comment before the \<^verbatim>\<open>raise\<close> statement promise the \<^verbatim>\<open>LexerError\<close>. The example of the claim,
  \<^verbatim>\<open>a @ b\<close>, fails with \<^verbatim>\<open>@\<close> at line 1, column 3.
\<close>

theorem next_token_ValueError_for_LexerError:
  "\<not> at_end (skip_ws_and_comments (Lexer_init [CHR 0xB2])) \<and>
   fst (read_identifier_or_keyword (skip_ws_and_comments (Lexer_init [CHR 0xB2]))) = None \<and>
   fst (read_number (skip_ws_and_comments (Lexer_init [CHR 0xB2]))) =
     Inl (ValueError [CHR 0xB2]) \<and>
   fst (read_operator_or_punct (skip_ws_and_comments (Lexer_init [CHR 0xB2]))) = None \<and>
   fst (next_token (Lexer_init [CHR 0xB2])) = Inl (ValueError [CHR 0xB2]) \<and>
   fst (tokenize (Lexer_init ''a @ b'')) = Inl (LexerError ''@'' 1 3)"
  by code_simp

subsection \<open>Positions of tokens\<close>

lemma cursor_inv_symbols:
  "cursor_inv (s\<lparr>lx_lettab := tab, lx_letseq := k\<rparr>) = cursor_inv s"
  by (simp add: cursor_inv_def)

lemma take_length_takeWhile: "take (length (takeWhile P xs)) xs = takeWhile P xs"
  by (induction xs) simp_all

text \<open>
  A token of a recognizer starts at the cursor and its lexeme is the text between the
  cursor before and the cursor after.
\<close>

lemma read_identifier_or_keyword_span:
  assumes inv: "cursor_inv s" and r: "read_identifier_or_keyword s = (Some tok, s')"
  shows "tok_line tok = lx_line s \<and> tok_col tok = lx_col s \<and>
         tok_lexeme tok = take (lx_pos s' - lx_pos s) (drop (lx_pos s) (lx_text s)) \<and>
         lx_text s' = lx_text s \<and> cursor_inv s'"
proof -
  from inv have n: "lx_n s = length (lx_text s)"
    by (simp add: cursor_inv_def)
  from r have g: "isalpha (peek s 0) \<or> peek s 0 = ''_''"
    by (auto simp: read_identifier_or_keyword_def Let_def split: if_splits)
  let ?run = "takeWhile (\<lambda>c. char_isalnum c \<or> c = CHR ''_'') (drop (lx_pos s) (lx_text s))"
  let ?s2 = "snd (ident_while (snd (advance s)) (fst (advance s)))"
  note tk = read_identifier_or_keyword_token [OF n g refl refl]
  from advances_cursor_inv [OF tk(2) inv] have inv2: "cursor_inv ?s2" .
  from advances_frame [OF tk(2)] have fr: "lx_text ?s2 = lx_text s"
    by simp
  from r [unfolded tk(1)] tk(3) inv2 fr show ?thesis
    by (auto simp: take_length_takeWhile cursor_inv_symbols split: if_splits)
qed

lemma read_number_span:
  assumes inv: "cursor_inv s" and r: "read_number s = (Inr (Some tok), s')"
  shows "tok_line tok = lx_line s \<and> tok_col tok = lx_col s \<and>
         tok_lexeme tok = take (lx_pos s' - lx_pos s) (drop (lx_pos s) (lx_text s)) \<and>
         lx_text s' = lx_text s \<and> cursor_inv s'"
proof -
  from inv have n: "lx_n s = length (lx_text s)"
    by (simp add: cursor_inv_def)
  from r have g: "isdigit (peek s 0)"
    by (auto simp: read_number_def Let_def split: if_splits)
  let ?s2 = "snd (number_while (snd (advance s)) (fst (advance s)))"
  note tk = read_number_token [OF n g refl refl]
  from advances_cursor_inv [OF tk(2) inv] have inv2: "cursor_inv ?s2" .
  from advances_frame [OF tk(2)] have fr: "lx_text ?s2 = lx_text s"
    by simp
  from r [unfolded tk(1)] tk(3) inv2 fr show ?thesis
    by (auto simp: take_length_takeWhile split: option.splits)
qed

lemma read_operator_or_punct_span:
  assumes inv: "cursor_inv s" and r: "read_operator_or_punct s = (Some tok, s')"
  shows "tok_line tok = lx_line s \<and> tok_col tok = lx_col s \<and>
         tok_lexeme tok = take (lx_pos s' - lx_pos s) (drop (lx_pos s) (lx_text s)) \<and>
         lx_text s' = lx_text s \<and> cursor_inv s'"
proof (cases "OPERATORS_2 (peek s 0 @ peek s 1)")
  case (Some kind)
  from inv have n: "lx_n s = length (lx_text s)"
    by (simp add: cursor_inv_def)
  from Some have len: "length (peek s 0 @ peek s 1) = 2"
    by (rule OPERATORS_2_length)
  then have two: "lx_pos s + 1 < lx_n s"
    by (rule two_chars_window)
  then have open1: "\<not> at_end s" and open2: "\<not> at_end (snd (advance s))"
    by (simp_all add: at_end_def advance_pos advance_frame)
  then have adv: "advances s (snd (advance (snd (advance s))))"
    by (blast intro: advances_step advances_refl)
  from two n have "peek s 0 @ peek s 1 = take 2 (drop (lx_pos s) (lx_text s))"
    by (simp add: peek_def take_Suc_conv_app_nth numeral_2_eq_2 take_drop)
  moreover from r Some
  have "tok = \<lparr>tok_type = kind, tok_lexeme = peek s 0 @ peek s 1, tok_line = lx_line s,
                tok_col = lx_col s, tok_value = None, tok_lid = None\<rparr>"
    and "s' = snd (advance (snd (advance s)))"
    by (simp_all add: read_operator_or_punct_def Let_def)
  ultimately show ?thesis
    using advances_cursor_inv [OF adv inv] advances_frame [OF adv]
    by (simp add: advance_pos)
next
  case None
  from inv have n: "lx_n s = length (lx_text s)"
    by (simp add: cursor_inv_def)
  from r None have "OPERATORS_1 (peek s 0) \<noteq> None \<or> PUNCT (peek s 0) \<noteq> None"
    by (auto simp: read_operator_or_punct_def Let_def split: option.splits)
  then have "peek s 0 \<noteq> []"
    by (auto dest: OPERATORS_1_length PUNCT_length)
  then have open1: "\<not> at_end s"
    by (rule peek_nonempty_not_at_end)
  then have adv: "advances s (snd (advance s))"
    by (rule advances_one)
  from open1 n have "peek s 0 = take 1 (drop (lx_pos s) (lx_text s))"
    using peek_of_drop [OF n, of 0] by simp
  moreover from r None
  have "tok_lexeme tok = peek s 0 \<and> tok_line tok = lx_line s \<and> tok_col tok = lx_col s"
    and "s' = snd (advance s)"
    by (auto simp: read_operator_or_punct_def Let_def split: option.splits)
  ultimately show ?thesis
    using advances_cursor_inv [OF adv inv] advances_frame [OF adv]
    by (simp add: advance_pos)
qed

lemma read_identifier_or_keyword_start:
  "read_identifier_or_keyword s = (Some tok, s') \<Longrightarrow>
     tok_line tok = lx_line s \<and> tok_col tok = lx_col s"
  by (auto simp: read_identifier_or_keyword_def Let_def split: if_splits prod.splits)

lemma read_number_start:
  "read_number s = (Inr (Some tok), s') \<Longrightarrow> tok_line tok = lx_line s \<and> tok_col tok = lx_col s"
  by (auto simp: read_number_def Let_def split: if_splits prod.splits option.splits)

lemma read_operator_or_punct_start:
  "read_operator_or_punct s = (Some tok, s') \<Longrightarrow>
     tok_line tok = lx_line s \<and> tok_col tok = lx_col s"
  by (auto simp: read_operator_or_punct_def Let_def split: option.splits)

text \<open>
  The three ways \<^verbatim>\<open>next_token\<close> returns a token that is not the end marker.
\<close>

lemma next_token_cases:
  assumes r: "next_token s = (Inr tok, s')" and s0: "s0 = skip_ws_and_comments s"
  shows "at_end s0 \<and> s' = s0 \<and>
           tok = \<lparr>tok_type = ''EOF'', tok_lexeme = [], tok_line = lx_line s0,
                   tok_col = lx_col s0, tok_value = None, tok_lid = None\<rparr> \<or>
         \<not> at_end s0 \<and> read_identifier_or_keyword s0 = (Some tok, s') \<or>
         \<not> at_end s0 \<and> read_number s0 = (Inr (Some tok), s') \<or>
         \<not> at_end s0 \<and> read_operator_or_punct s0 = (Some tok, s')"
proof (cases "at_end s0")
  case True
  with r show ?thesis
    by (auto simp: next_token_def Let_def s0 [symmetric])
next
  case False
  from r have "(Inr tok, s') =
    (case fst (read_identifier_or_keyword s0) of
       Some tok \<Rightarrow> (Inr tok, snd (read_identifier_or_keyword s0))
     | None \<Rightarrow>
        (case fst (read_number s0) of
           Inl e \<Rightarrow> (Inl e, snd (read_number s0))
         | Inr (Some tok) \<Rightarrow> (Inr tok, snd (read_number s0))
         | Inr None \<Rightarrow>
            (case fst (read_operator_or_punct s0) of
               Some tok \<Rightarrow> (Inr tok, snd (read_operator_or_punct s0))
             | None \<Rightarrow> (Inl (LexerError (peek s0 0) (lx_line s0) (lx_col s0)), s0))))"
    by (simp only: next_token_dispatch [OF s0 False])
  with False show ?thesis
    by (auto simp: prod_eq_iff split: option.splits sum.splits)
qed

lemma next_token_start:
  assumes "next_token s = (Inr tok, s')"
  shows "tok_line tok = lx_line (skip_ws_and_comments s) \<and>
         tok_col tok = lx_col (skip_ws_and_comments s)"
  using next_token_cases [OF assms refl]
  by (auto dest: read_identifier_or_keyword_start read_number_start read_operator_or_punct_start)

lemma next_token_span:
  assumes inv: "cursor_inv s" and r: "next_token s = (Inr tok, s')"
  shows "tok_lexeme tok =
           take (lx_pos s' - lx_pos (skip_ws_and_comments s))
             (drop (lx_pos (skip_ws_and_comments s)) (lx_text s)) \<and>
         lx_text s' = lx_text s \<and> cursor_inv s' \<and> cursor_inv (skip_ws_and_comments s)"
proof -
  define s0 where "s0 = skip_ws_and_comments s"
  have adv: "advances s s0"
    unfolding s0_def by (rule skip_ws_and_comments_advances)
  from advances_cursor_inv [OF adv inv] have inv0: "cursor_inv s0" .
  from advances_frame [OF adv] have fr: "lx_text s0 = lx_text s"
    by simp
  from next_token_cases [OF r s0_def]
  have "tok_lexeme tok = take (lx_pos s' - lx_pos s0) (drop (lx_pos s0) (lx_text s0)) \<and>
        lx_text s' = lx_text s0 \<and> cursor_inv s'"
    using inv0
    by (auto dest: read_identifier_or_keyword_span [OF inv0] read_number_span [OF inv0]
        read_operator_or_punct_span [OF inv0])
  with inv0 show ?thesis
    by (simp add: fr s0_def [symmetric])
qed

text \<open>
  Claim C6. Line and column start at 1. \<^verbatim>\<open>advance\<close> adds one to the line exactly when the
  character it consumes is a newline, and then sets the column to 1; on any other
  character it adds one to the column. A token carries the line and column the cursor has
  when recognition starts (after blanks and comments are skipped); on a lexer that
  satisfies the cursor invariant, as every lexer reached from \<^verbatim>\<open>Lexer(text)\<close> does, that is
  the position in the text of the first character of the lexeme, and the invariant holds
  again afterwards. Scanning \<^verbatim>\<open>a\nbb\<close> gives \<^verbatim>\<open>a\<close> at (1,1) and \<^verbatim>\<open>bb\<close> at (2,1).
\<close>

theorem position_tracking:
  "lx_line (Lexer_init t) = 1 \<and> lx_col (Lexer_init t) = 1 \<and> cursor_inv (Lexer_init t) \<and>
   lx_line (snd (advance s)) = (if peek s 0 = [CHR 0x0A] then lx_line s + 1 else lx_line s) \<and>
   lx_col (snd (advance s)) = (if peek s 0 = [CHR 0x0A] then 1 else lx_col s + 1) \<and>
   (next_token s = (Inr tok, s') \<longrightarrow>
      tok_line tok = lx_line (skip_ws_and_comments s) \<and>
      tok_col tok = lx_col (skip_ws_and_comments s)) \<and>
   (cursor_inv s \<and> next_token s = (Inr tok, s') \<longrightarrow>
      (tok_line tok, tok_col tok) =
        position_after (take (lx_pos (skip_ws_and_comments s)) (lx_text s)) \<and>
      tok_lexeme tok =
        take (lx_pos s' - lx_pos (skip_ws_and_comments s))
          (drop (lx_pos (skip_ws_and_comments s)) (lx_text s)) \<and>
      lx_text s' = lx_text s \<and> cursor_inv s') \<and>
   fst (tokenize (Lexer_init (''a'' @ [CHR 0x0A] @ ''bb''))) =
     Inr [\<lparr>tok_type = ''ID'', tok_lexeme = ''a'', tok_line = 1, tok_col = 1,
            tok_value = None, tok_lid = Some 0\<rparr>,
          \<lparr>tok_type = ''ID'', tok_lexeme = ''bb'', tok_line = 2, tok_col = 1,
            tok_value = None, tok_lid = Some 1\<rparr>,
          \<lparr>tok_type = ''EOF'', tok_lexeme = [], tok_line = 2, tok_col = 3,
            tok_value = None, tok_lid = None\<rparr>]"
proof -
  have init: "lx_line (Lexer_init t) = 1 \<and> lx_col (Lexer_init t) = 1 \<and> cursor_inv (Lexer_init t)"
    by (simp add: Lexer_init_cursor_inv) (simp add: Lexer_init_def)
  have adv: "lx_line (snd (advance s)) = (if peek s 0 = [CHR 0x0A] then lx_line s + 1 else lx_line s) \<and>
   lx_col (snd (advance s)) = (if peek s 0 = [CHR 0x0A] then 1 else lx_col s + 1)"
    by (simp only: advance_line_col simp_thms)
  have start: "next_token s = (Inr tok, s') \<longrightarrow>
      tok_line tok = lx_line (skip_ws_and_comments s) \<and>
      tok_col tok = lx_col (skip_ws_and_comments s)"
    by (blast dest: next_token_start)
  have first: "cursor_inv s \<and> next_token s = (Inr tok, s') \<longrightarrow>
      (tok_line tok, tok_col tok) =
        position_after (take (lx_pos (skip_ws_and_comments s)) (lx_text s)) \<and>
      tok_lexeme tok =
        take (lx_pos s' - lx_pos (skip_ws_and_comments s))
          (drop (lx_pos (skip_ws_and_comments s)) (lx_text s)) \<and>
      lx_text s' = lx_text s \<and> cursor_inv s'"
  proof
    assume a: "cursor_inv s \<and> next_token s = (Inr tok, s')"
    then have inv: "cursor_inv s" and r: "next_token s = (Inr tok, s')"
      by blast+
    note sp = next_token_span [OF inv r]
    note st = next_token_start [OF r]
    have "lx_text (skip_ws_and_comments s) = lx_text s"
      using advances_frame [OF skip_ws_and_comments_advances [of s]] by simp
    with sp have "(lx_line (skip_ws_and_comments s), lx_col (skip_ws_and_comments s)) =
        position_after (take (lx_pos (skip_ws_and_comments s)) (lx_text s))"
      by (simp add: cursor_inv_def)
    with sp st show "(tok_line tok, tok_col tok) =
        position_after (take (lx_pos (skip_ws_and_comments s)) (lx_text s)) \<and>
      tok_lexeme tok =
        take (lx_pos s' - lx_pos (skip_ws_and_comments s))
          (drop (lx_pos (skip_ws_and_comments s)) (lx_text s)) \<and>
      lx_text s' = lx_text s \<and> cursor_inv s'"
      by simp
  qed
  have ex: "fst (tokenize (Lexer_init (''a'' @ [CHR 0x0A] @ ''bb''))) =
     Inr [\<lparr>tok_type = ''ID'', tok_lexeme = ''a'', tok_line = 1, tok_col = 1,
            tok_value = None, tok_lid = Some 0\<rparr>,
          \<lparr>tok_type = ''ID'', tok_lexeme = ''bb'', tok_line = 2, tok_col = 1,
            tok_value = None, tok_lid = Some 1\<rparr>,
          \<lparr>tok_type = ''EOF'', tok_lexeme = [], tok_line = 2, tok_col = 3,
            tok_value = None, tok_lid = None\<rparr>]"
    by code_simp
  from init adv start first ex show ?thesis
    by (intro conjI) blast+
qed

theorem position_tracking_witness:
  "cursor_inv (snd (next_token (Lexer_init (''a'' @ [CHR 0x0A] @ ''bb'')))) \<and>
   fst (next_token (snd (next_token (Lexer_init (''a'' @ [CHR 0x0A] @ ''bb''))))) =
     Inr \<lparr>tok_type = ''ID'', tok_lexeme = ''bb'', tok_line = 2, tok_col = 1,
           tok_value = None, tok_lid = Some 1\<rparr> \<and>
   position_after
     (take (lx_pos (skip_ws_and_comments (snd (next_token (Lexer_init (''a'' @ [CHR 0x0A] @ ''bb''))))))
       (lx_text (snd (next_token (Lexer_init (''a'' @ [CHR 0x0A] @ ''bb'')))))) = (2, 1) \<and>
   cursor_inv (snd (next_token (snd (next_token (Lexer_init (''a'' @ [CHR 0x0A] @ ''bb''))))))"
proof -
  let ?T = "''a'' @ [CHR 0x0A] @ ''bb''"
  let ?A = "\<lparr>tok_type = ''ID'', tok_lexeme = ''a'', tok_line = 1, tok_col = 1,
           tok_value = None, tok_lid = Some 0\<rparr>"
  let ?B = "\<lparr>tok_type = ''ID'', tok_lexeme = ''bb'', tok_line = 2, tok_col = 1,
           tok_value = None, tok_lid = Some 1\<rparr>"
  let ?s1 = "snd (next_token (Lexer_init ?T))"
  have f1: "fst (next_token (Lexer_init ?T)) = Inr ?A"
    by code_simp
  then have r1: "next_token (Lexer_init ?T) = (Inr ?A, ?s1)"
    by (simp add: prod_eq_iff)
  have f2: "fst (next_token ?s1) = Inr ?B"
    by code_simp
  then have r2: "next_token ?s1 = (Inr ?B, snd (next_token ?s1))"
    by (simp add: prod_eq_iff)
  from position_tracking [where t = ?T and s = "Lexer_init ?T" and tok = ?A and s' = ?s1] r1
  have inv1: "cursor_inv ?s1"
    by blast
  from position_tracking [where s = ?s1 and tok = ?B and s' = "snd (next_token ?s1)"] r2 inv1
  have "(tok_line ?B, tok_col ?B) =
        position_after (take (lx_pos (skip_ws_and_comments ?s1)) (lx_text ?s1)) \<and>
      cursor_inv (snd (next_token ?s1))"
    by blast
  with inv1 f2 show ?thesis
    by simp
qed

subsection \<open>The symbol table\<close>

lemma first_rank_append_old: "l \<in> set seen \<Longrightarrow> first_rank (seen @ rest) l = first_rank seen l"
  by (simp add: first_rank_def takeWhile_append1)

lemma first_rank_append_new: "l \<notin> set seen \<Longrightarrow> first_rank (seen @ [l]) l = card (set seen)"
proof -
  assume "l \<notin> set seen"
  then have "takeWhile (\<lambda>x. x \<noteq> l) (seen @ [l]) = seen"
    by (subst takeWhile_append2) auto
  then show ?thesis
    by (simp add: first_rank_def)
qed

lemma first_rank_first_occurrence:
  assumes "i < length seen" and "seen ! i \<notin> set (take i seen)"
  shows "first_rank seen (seen ! i) = card (set (take i seen))"
proof -
  have "seen = take i seen @ seen ! i # drop (Suc i) seen"
    using assms(1) by (simp add: id_take_nth_drop)
  then have "takeWhile (\<lambda>x. x \<noteq> seen ! i) seen =
      takeWhile (\<lambda>x. x \<noteq> seen ! i) (take i seen @ seen ! i # drop (Suc i) seen)"
    by simp
  also have "\<dots> = take i seen"
    using assms(2) by (subst takeWhile_append2) auto
  finally show ?thesis
    by (simp add: first_rank_def)
qed

lemma takeWhile_first_of_two:
  assumes "x \<in> set xs" and "x \<noteq> y"
  shows "set (takeWhile (\<lambda>a. a \<noteq> x) xs) \<subseteq> set (takeWhile (\<lambda>a. a \<noteq> y) xs) \<and>
       x \<in> set (takeWhile (\<lambda>a. a \<noteq> y) xs) \<or>
     set (takeWhile (\<lambda>a. a \<noteq> y) xs) \<subseteq> set (takeWhile (\<lambda>a. a \<noteq> x) xs) \<and>
       y \<in> set (takeWhile (\<lambda>a. a \<noteq> x) xs)"
  using assms
proof (induction xs)
  case Nil
  then show ?case
    by simp
next
  case (Cons a xs)
  show ?case
  proof (cases "a = x")
    case True
    with Cons.prems(2) show ?thesis
      by simp
  next
    case nx: False
    show ?thesis
    proof (cases "a = y")
      case True
      with nx show ?thesis
        by simp
    next
      case ny: False
      from nx Cons.prems(1) have "x \<in> set xs"
        by simp
      from Cons.IH [OF this Cons.prems(2)] nx ny show ?thesis
        by simp blast
    qed
  qed
qed

lemma first_rank_inj:
  assumes "x \<in> set xs" and "y \<in> set xs" and "first_rank xs x = first_rank xs y"
  shows "x = y"
proof (rule ccontr)
  assume ne: "x \<noteq> y"
  have nx: "x \<notin> set (takeWhile (\<lambda>a. a \<noteq> x) xs)" and ny: "y \<notin> set (takeWhile (\<lambda>a. a \<noteq> y) xs)"
    by (auto dest: set_takeWhileD)
  from takeWhile_first_of_two [OF assms(1) ne]
  have "set (takeWhile (\<lambda>a. a \<noteq> x) xs) \<subset> set (takeWhile (\<lambda>a. a \<noteq> y) xs) \<or>
        set (takeWhile (\<lambda>a. a \<noteq> y) xs) \<subset> set (takeWhile (\<lambda>a. a \<noteq> x) xs)"
    using nx ny by blast
  then have "first_rank xs x < first_rank xs y \<or> first_rank xs y < first_rank xs x"
    unfolding first_rank_def by (blast intro: psubset_card_mono)
  with assms(3) show False
    by simp
qed

text \<open>What a token of \<^verbatim>\<open>next_token\<close> does to the symbol table.\<close>

lemma read_identifier_or_keyword_symbols:
  assumes "read_identifier_or_keyword s = (Some tok, s')"
  shows "tok_type tok \<noteq> ''ID'' \<and> lx_lettab s' = lx_lettab s \<and> lx_letseq s' = lx_letseq s \<or>
    tok_type tok = ''ID'' \<and>
    tok_lid tok =
      Some (case lx_lettab s (tok_lexeme tok) of None \<Rightarrow> lx_letseq s | Some i \<Rightarrow> i) \<and>
    lx_lettab s' =
      (if lx_lettab s (tok_lexeme tok) = None
       then (lx_lettab s)(tok_lexeme tok \<mapsto> lx_letseq s) else lx_lettab s) \<and>
    lx_letseq s' =
      (if lx_lettab s (tok_lexeme tok) = None then lx_letseq s + 1 else lx_letseq s)"
proof -
  obtain lexeme s2 where pair: "ident_while (snd (advance s)) (fst (advance s)) = (lexeme, s2)"
    by (cases "ident_while (snd (advance s)) (fst (advance s))")
  from advances_frame [OF ident_while_advances [of "snd (advance s)" "fst (advance s)"]]
  have fr: "lx_lettab s2 = lx_lettab s" "lx_letseq s2 = lx_letseq s"
    by (simp_all add: pair advance_frame)
  from assms have g: "isalpha (peek s 0) \<or> peek s 0 = ''_''"
    by (auto simp: read_identifier_or_keyword_def Let_def split: if_splits)
  let ?tok = "\<lparr>tok_type = (if lexeme \<in> KEYWORDS then ''KW_'' @ upper lexeme else ''ID''),
      tok_lexeme = lexeme, tok_line = lx_line s, tok_col = lx_col s, tok_value = None,
      tok_lid = (if lexeme \<in> KEYWORDS then None
                 else Some (case lx_lettab s lexeme of None \<Rightarrow> lx_letseq s | Some i \<Rightarrow> i))\<rparr>"
  let ?s' = "if lexeme \<in> KEYWORDS \<or> lx_lettab s lexeme \<noteq> None then s2
       else s2\<lparr>lx_lettab := (lx_lettab s)(lexeme \<mapsto> lx_letseq s), lx_letseq := lx_letseq s + 1\<rparr>"
  from g have "read_identifier_or_keyword s = (Some ?tok, ?s')"
    by (auto simp: read_identifier_or_keyword_def Let_def pair fr)
  with assms have tok: "tok = ?tok" and s': "s' = ?s'"
    by simp_all
  show ?thesis
    unfolding tok s' by (simp add: fr)
qed

lemma read_number_symbols:
  "read_number s = (r, s') \<Longrightarrow> lx_lettab s' = lx_lettab s \<and> lx_letseq s' = lx_letseq s"
  using advances_frame [OF number_while_advances [of "snd (advance s)" "fst (advance s)"]]
  by (auto simp: read_number_def Let_def advance_frame split: if_splits prod.splits option.splits)

lemma read_operator_or_punct_symbols:
  "read_operator_or_punct s = (r, s') \<Longrightarrow>
     lx_lettab s' = lx_lettab s \<and> lx_letseq s' = lx_letseq s"
  by (auto simp: read_operator_or_punct_def Let_def advance_frame split: option.splits)

lemma next_token_symbols:
  assumes "next_token s = (Inr tok, s')"
  shows "tok_type tok \<noteq> ''ID'' \<and> lx_lettab s' = lx_lettab s \<and> lx_letseq s' = lx_letseq s \<or>
    tok_type tok = ''ID'' \<and>
    tok_lid tok =
      Some (case lx_lettab s (tok_lexeme tok) of None \<Rightarrow> lx_letseq s | Some i \<Rightarrow> i) \<and>
    lx_lettab s' =
      (if lx_lettab s (tok_lexeme tok) = None
       then (lx_lettab s)(tok_lexeme tok \<mapsto> lx_letseq s) else lx_lettab s) \<and>
    lx_letseq s' =
      (if lx_lettab s (tok_lexeme tok) = None then lx_letseq s + 1 else lx_letseq s)"
proof -
  define s0 where "s0 = skip_ws_and_comments s"
  have fr: "lx_lettab s0 = lx_lettab s" "lx_letseq s0 = lx_letseq s"
    using advances_frame [OF skip_ws_and_comments_advances [of s]] by (simp_all add: s0_def)
  from next_token_cases [OF assms s0_def]
  consider (eof) "s' = s0" "tok_type tok = ''EOF''"
    | (ident) "read_identifier_or_keyword s0 = (Some tok, s')"
    | (number) "read_number s0 = (Inr (Some tok), s')"
    | (operator) "read_operator_or_punct s0 = (Some tok, s')"
    by auto
  then show ?thesis
  proof cases
    case eof
    then show ?thesis
      by (simp add: fr)
  next
    case ident
    from read_identifier_or_keyword_symbols [OF this] show ?thesis
      by (simp only: fr)
  next
    case number
    from read_number_symbols [OF this] read_number_type [OF this] show ?thesis
      by (simp add: fr)
  next
    case operator
    from read_operator_or_punct_symbols [OF this] read_operator_or_punct_type [OF this]
    show ?thesis
      by (simp add: fr)
  qed
qed

lemma id_lexemes_snoc:
  "id_lexemes (toks @ [tok]) =
     (if tok_type tok = ''ID'' then id_lexemes toks @ [tok_lexeme tok] else id_lexemes toks)"
  by (simp add: id_lexemes_def)

lemma id_lexemes_member:
  "tk \<in> set toks \<Longrightarrow> tok_type tk = ''ID'' \<Longrightarrow> tok_lexeme tk \<in> set (id_lexemes toks)"
  by (auto simp: id_lexemes_def)

lemma table_matches_old:
  assumes tm: "table_matches s seen" and old: "l \<in> set seen"
    and tab: "lx_lettab s' = lx_lettab s" and sq: "lx_letseq s' = lx_letseq s"
  shows "table_matches s' (seen @ [l])"
    and "(case lx_lettab s l of None \<Rightarrow> lx_letseq s | Some i \<Rightarrow> i) = first_rank (seen @ [l]) l"
proof -
  from old have st: "set (seen @ [l]) = set seen"
    by auto
  from tm have "lx_lettab s' = (\<lambda>x. if x \<in> set seen then Some (first_rank seen x) else None)"
    by (simp add: table_matches_def tab)
  also have "\<dots> = (\<lambda>x. if x \<in> set (seen @ [l])
      then Some (first_rank (seen @ [l]) x) else None)"
    unfolding st by (rule ext) (simp add: first_rank_append_old)
  finally show "table_matches s' (seen @ [l])"
    using tm unfolding table_matches_def st sq by simp
  from tm old show "(case lx_lettab s l of None \<Rightarrow> lx_letseq s | Some i \<Rightarrow> i) =
      first_rank (seen @ [l]) l"
    by (simp add: table_matches_def first_rank_append_old)
qed

lemma table_matches_new:
  assumes tm: "table_matches s seen" and new: "l \<notin> set seen"
    and tab: "lx_lettab s' = (lx_lettab s)(l \<mapsto> lx_letseq s)"
    and sq: "lx_letseq s' = lx_letseq s + 1"
  shows "table_matches s' (seen @ [l])"
    and "(case lx_lettab s l of None \<Rightarrow> lx_letseq s | Some i \<Rightarrow> i) = first_rank (seen @ [l]) l"
proof -
  from tm have t: "lx_lettab s = (\<lambda>x. if x \<in> set seen then Some (first_rank seen x) else None)"
    and q: "lx_letseq s = card (set seen)"
    by (simp_all add: table_matches_def)
  have "lx_lettab s' = (\<lambda>x. if x \<in> set (seen @ [l])
      then Some (first_rank (seen @ [l]) x) else None)"
    unfolding tab
  proof (rule ext)
    fix x
    show "((lx_lettab s)(l \<mapsto> lx_letseq s)) x =
        (if x \<in> set (seen @ [l]) then Some (first_rank (seen @ [l]) x) else None)"
    proof (cases "x = l")
      case True
      with new q show ?thesis
        by (simp add: first_rank_append_new)
    next
      case False
      then show ?thesis
        by (simp add: t first_rank_append_old)
    qed
  qed
  moreover from new have "card (set (seen @ [l])) = card (set seen) + 1"
    by simp
  ultimately show "table_matches s' (seen @ [l])"
    by (simp add: table_matches_def sq q)
  from new show "(case lx_lettab s l of None \<Rightarrow> lx_letseq s | Some i \<Rightarrow> i) =
      first_rank (seen @ [l]) l"
    by (simp add: t q first_rank_append_new)
qed

lemma next_token_keeps_ranks:
  assumes tm: "table_matches s (id_lexemes acc)" and rk: "ids_ranked acc"
    and nt: "next_token s = (Inr tok, s')"
  shows "table_matches s' (id_lexemes (acc @ [tok])) \<and> ids_ranked (acc @ [tok])"
proof (cases "tok_type tok = ''ID''")
  case False
  with next_token_symbols [OF nt] have "lx_lettab s' = lx_lettab s" "lx_letseq s' = lx_letseq s"
    by simp_all
  with tm have "table_matches s' (id_lexemes acc)"
    by (simp add: table_matches_def)
  with False rk show ?thesis
    by (auto simp: id_lexemes_snoc ids_ranked_def)
next
  case True
  let ?l = "tok_lexeme tok"
  let ?seen = "id_lexemes acc"
  from next_token_symbols [OF nt] True
  have lid: "tok_lid tok = Some (case lx_lettab s ?l of None \<Rightarrow> lx_letseq s | Some i \<Rightarrow> i)"
    and tab: "lx_lettab s' =
      (if lx_lettab s ?l = None then (lx_lettab s)(?l \<mapsto> lx_letseq s) else lx_lettab s)"
    and sq: "lx_letseq s' = (if lx_lettab s ?l = None then lx_letseq s + 1 else lx_letseq s)"
    by simp_all
  from tm have known: "lx_lettab s ?l = None \<longleftrightarrow> ?l \<notin> set ?seen"
    by (simp add: table_matches_def)
  have step: "table_matches s' (?seen @ [?l]) \<and>
      tok_lid tok = Some (first_rank (?seen @ [?l]) ?l)"
  proof (cases "?l \<in> set ?seen")
    case True
    with known have "lx_lettab s ?l \<noteq> None"
      by simp
    then have "lx_lettab s' = lx_lettab s" "lx_letseq s' = lx_letseq s"
      unfolding tab sq by (simp_all only: if_False)
    from table_matches_old [OF tm True this] lid show ?thesis
      by simp
  next
    case False
    with known have "lx_lettab s ?l = None"
      by simp
    then have "lx_lettab s' = (lx_lettab s)(?l \<mapsto> lx_letseq s)"
      "lx_letseq s' = lx_letseq s + 1"
      unfolding tab sq by simp_all
    from table_matches_new [OF tm False this] lid show ?thesis
      by simp
  qed
  have "ids_ranked (acc @ [tok])"
    unfolding ids_ranked_def
  proof (intro ballI impI)
    fix tk
    assume mem: "tk \<in> set (acc @ [tok])" and id: "tok_type tk = ''ID''"
    show "tok_lid tk = Some (first_rank (id_lexemes (acc @ [tok])) (tok_lexeme tk))"
    proof (cases "tk = tok")
      case True
      with step \<open>tok_type tok = ''ID''\<close> show ?thesis
        by (simp add: id_lexemes_snoc)
    next
      case False
      with mem have old: "tk \<in> set acc"
        by simp
      with rk id have "tok_lid tk = Some (first_rank ?seen (tok_lexeme tk))"
        by (simp add: ids_ranked_def)
      with id_lexemes_member [OF old id] \<open>tok_type tok = ''ID''\<close> show ?thesis
        by (simp add: id_lexemes_snoc first_rank_append_old)
    qed
  qed
  with step True show ?thesis
    by (simp add: id_lexemes_snoc)
qed

lemma tokenize_while_ids_ranked:
  "table_matches s (id_lexemes acc) \<Longrightarrow> ids_ranked acc \<Longrightarrow>
     tokenize_while s acc = (Inr toks, s') \<Longrightarrow> ids_ranked toks"
proof (induction s acc rule: tokenize_while.induct)
  case (1 s tokens)
  obtain r s1 where nt: "next_token s = (r, s1)"
    by (cases "next_token s")
  show ?case
  proof (cases r)
    case (Inl e)
    with nt "1.prems"(3) show ?thesis
      by (subst (asm) tokenize_while.simps) simp
  next
    case (Inr tok)
    with nt have nt': "next_token s = (Inr tok, s1)"
      by simp
    note keep = next_token_keeps_ranks [OF "1.prems"(1,2) nt']
    show ?thesis
    proof (cases "tok_type tok = ''EOF''")
      case True
      with nt' "1.prems"(3) have "toks = tokens @ [tok]"
        by (subst (asm) tokenize_while.simps) simp
      with keep show ?thesis
        by simp
    next
      case False
      with nt' "1.prems"(3) have "tokenize_while s1 (tokens @ [tok]) = (Inr toks, s')"
        by (subst (asm) tokenize_while.simps) simp
      with "1.IH" [OF nt' [symmetric] refl False] keep show ?thesis
        by blast
    qed
  qed
qed

lemma Lexer_init_table_matches: "table_matches (Lexer_init t) (id_lexemes [])"
  by (simp add: table_matches_def id_lexemes_def Lexer_init_def)

text \<open>
  Claim C2. Within one scan the symbol ids follow the order of first occurrence, from 0:
  every identifier token carries the number of distinct identifier spellings that
  occur before the first occurrence of its own spelling, which for a first occurrence is
  the number of distinct spellings seen so far, the next unused id. So two identifier
  tokens have the same id exactly when they have the same spelling (compared
  case-sensitively, as strings). Scanning \<^verbatim>\<open>x y x\<close> gives the ids 0, 1, 0.
\<close>

theorem symbol_ids_by_first_occurrence:
  assumes "fst (tokenize (Lexer_init t)) = Inr toks"
  shows "(\<forall>tk \<in> set toks. tok_type tk = ''ID'' \<longrightarrow>
            tok_lid tk = Some (first_rank (id_lexemes toks) (tok_lexeme tk))) \<and>
         (\<forall>i < length (id_lexemes toks).
            id_lexemes toks ! i \<notin> set (take i (id_lexemes toks)) \<longrightarrow>
            first_rank (id_lexemes toks) (id_lexemes toks ! i) =
              card (set (take i (id_lexemes toks)))) \<and>
         (\<forall>tk \<in> set toks. \<forall>tk' \<in> set toks.
            tok_type tk = ''ID'' \<and> tok_type tk' = ''ID'' \<longrightarrow>
            (tok_lid tk = tok_lid tk' \<longleftrightarrow> tok_lexeme tk = tok_lexeme tk')) \<and>
         fst (tokenize (Lexer_init ''x y x'')) =
           Inr [\<lparr>tok_type = ''ID'', tok_lexeme = ''x'', tok_line = 1, tok_col = 1,
                  tok_value = None, tok_lid = Some 0\<rparr>,
                \<lparr>tok_type = ''ID'', tok_lexeme = ''y'', tok_line = 1, tok_col = 3,
                  tok_value = None, tok_lid = Some 1\<rparr>,
                \<lparr>tok_type = ''ID'', tok_lexeme = ''x'', tok_line = 1, tok_col = 5,
                  tok_value = None, tok_lid = Some 0\<rparr>,
                \<lparr>tok_type = ''EOF'', tok_lexeme = [], tok_line = 1, tok_col = 6,
                  tok_value = None, tok_lid = None\<rparr>]"
proof -
  from assms have "tokenize_while (Lexer_init t) [] = (Inr toks, snd (tokenize (Lexer_init t)))"
    by (simp add: tokenize_def prod_eq_iff)
  moreover have "ids_ranked []"
    by (simp add: ids_ranked_def)
  ultimately have "ids_ranked toks"
    by (rule tokenize_while_ids_ranked [OF Lexer_init_table_matches, rotated])
  then have ranked: "\<forall>tk \<in> set toks. tok_type tk = ''ID'' \<longrightarrow>
      tok_lid tk = Some (first_rank (id_lexemes toks) (tok_lexeme tk))"
    by (simp only: ids_ranked_def)
  have fresh: "\<forall>i < length (id_lexemes toks).
      id_lexemes toks ! i \<notin> set (take i (id_lexemes toks)) \<longrightarrow>
      first_rank (id_lexemes toks) (id_lexemes toks ! i) = card (set (take i (id_lexemes toks)))"
    by (blast intro: first_rank_first_occurrence)
  have inj: "\<forall>tk \<in> set toks. \<forall>tk' \<in> set toks.
      tok_type tk = ''ID'' \<and> tok_type tk' = ''ID'' \<longrightarrow>
      (tok_lid tk = tok_lid tk' \<longleftrightarrow> tok_lexeme tk = tok_lexeme tk')"
  proof (intro ballI impI)
    fix tk tk'
    assume m: "tk \<in> set toks" "tk' \<in> set toks"
      and id: "tok_type tk = ''ID'' \<and> tok_type tk' = ''ID''"
    with ranked have "tok_lid tk = Some (first_rank (id_lexemes toks) (tok_lexeme tk))"
      "tok_lid tk' = Some (first_rank (id_lexemes toks) (tok_lexeme tk'))"
      by blast+
    moreover from m id have "tok_lexeme tk \<in> set (id_lexemes toks)"
      "tok_lexeme tk' \<in> set (id_lexemes toks)"
      by (blast intro: id_lexemes_member)+
    ultimately show "tok_lid tk = tok_lid tk' \<longleftrightarrow> tok_lexeme tk = tok_lexeme tk'"
      by (auto dest: first_rank_inj)
  qed
  have ex: "fst (tokenize (Lexer_init ''x y x'')) =
           Inr [\<lparr>tok_type = ''ID'', tok_lexeme = ''x'', tok_line = 1, tok_col = 1,
                  tok_value = None, tok_lid = Some 0\<rparr>,
                \<lparr>tok_type = ''ID'', tok_lexeme = ''y'', tok_line = 1, tok_col = 3,
                  tok_value = None, tok_lid = Some 1\<rparr>,
                \<lparr>tok_type = ''ID'', tok_lexeme = ''x'', tok_line = 1, tok_col = 5,
                  tok_value = None, tok_lid = Some 0\<rparr>,
                \<lparr>tok_type = ''EOF'', tok_lexeme = [], tok_line = 1, tok_col = 6,
                  tok_value = None, tok_lid = None\<rparr>]"
    by code_simp
  from ranked fresh inj ex show ?thesis
    by (intro conjI)
qed

theorem symbol_ids_by_first_occurrence_witness:
  "fst (tokenize (Lexer_init ''b a b'')) =
     Inr [\<lparr>tok_type = ''ID'', tok_lexeme = ''b'', tok_line = 1, tok_col = 1,
            tok_value = None, tok_lid = Some 0\<rparr>,
          \<lparr>tok_type = ''ID'', tok_lexeme = ''a'', tok_line = 1, tok_col = 3,
            tok_value = None, tok_lid = Some 1\<rparr>,
          \<lparr>tok_type = ''ID'', tok_lexeme = ''b'', tok_line = 1, tok_col = 5,
            tok_value = None, tok_lid = Some 0\<rparr>,
          \<lparr>tok_type = ''EOF'', tok_lexeme = [], tok_line = 1, tok_col = 6,
            tok_value = None, tok_lid = None\<rparr>] \<and>
   Some (1::nat) = Some (first_rank [''b'', ''a'', ''b''] ''a'') \<and>
   Some (0::nat) = Some (first_rank [''b'', ''a'', ''b''] ''b'')"
proof -
  let ?toks = "[\<lparr>tok_type = ''ID'', tok_lexeme = ''b'', tok_line = 1, tok_col = 1,
            tok_value = None, tok_lid = Some 0\<rparr>,
          \<lparr>tok_type = ''ID'', tok_lexeme = ''a'', tok_line = 1, tok_col = 3,
            tok_value = None, tok_lid = Some 1\<rparr>,
          \<lparr>tok_type = ''ID'', tok_lexeme = ''b'', tok_line = 1, tok_col = 5,
            tok_value = None, tok_lid = Some 0\<rparr>,
          \<lparr>tok_type = ''EOF'', tok_lexeme = [], tok_line = 1, tok_col = 6,
            tok_value = None, tok_lid = None\<rparr>]"
  have run: "fst (tokenize (Lexer_init ''b a b'')) = Inr ?toks"
    by code_simp
  have lex: "id_lexemes ?toks = [''b'', ''a'', ''b'']"
    by (simp add: id_lexemes_def)
  from symbol_ids_by_first_occurrence [OF run]
  have "\<forall>tk \<in> set ?toks. tok_type tk = ''ID'' \<longrightarrow>
      tok_lid tk = Some (first_rank [''b'', ''a'', ''b''] (tok_lexeme tk))"
    unfolding lex by blast
  then have "Some (1::nat) = Some (first_rank [''b'', ''a'', ''b''] ''a'') \<and>
    Some (0::nat) = Some (first_rank [''b'', ''a'', ''b''] ''b'')"
    by simp
  with run show ?thesis
    by blast
qed

subsection \<open>The outcomes of a scan\<close>

text \<open>
  An error of \<^verbatim>\<open>next_token\<close> is the \<^verbatim>\<open>LexerError\<close>, or the \<^verbatim>\<open>ValueError\<close> of a run of
  \<^verbatim>\<open>isdigit\<close> characters of the text that are not all decimal digits or are more than
  \<^verbatim>\<open>int\<close> converts.
\<close>

lemma next_token_error_kinds:
  assumes inv: "cursor_inv s" and err: "fst (next_token s) = Inl e"
  shows "(\<exists>ch l c. e = LexerError ch l c) \<or>
         (\<exists>run. e = ValueError run \<and>
            ((\<exists>d \<in> set (lx_text s). char_isdigit d \<and> \<not> char_isdecimal d) \<or>
             max_str_digits < length (lx_text s)))"
proof -
  define s0 where "s0 = skip_ws_and_comments s"
  have adv: "advances s s0"
    unfolding s0_def by (rule skip_ws_and_comments_advances)
  from advances_cursor_inv [OF adv inv] have n0: "lx_n s0 = length (lx_text s0)"
    by (simp add: cursor_inv_def)
  from advances_frame [OF adv] have fr: "lx_text s0 = lx_text s"
    by simp
  from err have open_: "\<not> at_end s0"
    by (auto simp: next_token_def Let_def s0_def)
  show ?thesis
  proof (cases "fst (read_number s0)")
    case (Inr r)
    with err show ?thesis
      by (auto simp: next_token_dispatch [OF s0_def open_] split: option.splits)
  next
    case (Inl e')
    then have g: "isdigit (peek s0 0)"
      by (auto simp: read_number_def Let_def split: if_splits)
    let ?run = "takeWhile char_isdigit (drop (lx_pos s0) (lx_text s0))"
    note tk = read_number_token [OF n0 g refl refl]
    from Inl tk(1) have none: "py_int ?run = None" and e': "e' = ValueError ?run"
      by (auto split: option.splits)
    from none tk(4) have why: "\<not> list_all char_isdecimal ?run \<or> max_str_digits < length ?run"
      by (auto simp: py_int_def not_le split: if_splits)
    have bad: "(\<exists>d \<in> set (lx_text s). char_isdigit d \<and> \<not> char_isdecimal d) \<or>
        max_str_digits < length (lx_text s)"
    proof (cases "list_all char_isdecimal ?run")
      case False
      then obtain d where d: "d \<in> set ?run" "\<not> char_isdecimal d"
        by (auto simp: list_all_iff)
      from d(1) have "char_isdigit d" and "d \<in> set (lx_text s)"
        by (auto dest: set_takeWhileD in_set_dropD simp: fr)
      with d(2) show ?thesis
        by blast
    next
      case True
      with why have "max_str_digits < length ?run"
        by blast
      moreover have "length ?run \<le> length (drop (lx_pos s0) (lx_text s0))"
        by (rule length_takeWhile_le)
      ultimately have "max_str_digits < length (lx_text s)"
        by (simp add: fr)
      then show ?thesis
        by blast
    qed
    from err Inl e' have "e = ValueError ?run \<or> (\<exists>ch l c. e = LexerError ch l c)"
      by (auto simp: next_token_dispatch [OF s0_def open_] split: option.splits)
    with bad show ?thesis
      by blast
  qed
qed

text \<open>
  \<^verbatim>\<open>tokenize\<close> returns, for every text: a token list that ends with the end marker, the
  \<^verbatim>\<open>LexerError\<close>, or the \<^verbatim>\<open>ValueError\<close>, the last only when the text holds an \<^verbatim>\<open>isdigit\<close>
  character that is not a decimal digit or is longer than the limit of \<^verbatim>\<open>int\<close>.
\<close>

lemma tokenize_while_outcomes:
  "cursor_inv s \<Longrightarrow>
     (\<exists>toks. fst (tokenize_while s acc) = Inr toks \<and> toks \<noteq> [] \<and>
        tok_type (last toks) = ''EOF'') \<or>
     (\<exists>ch l c. fst (tokenize_while s acc) = Inl (LexerError ch l c)) \<or>
     (\<exists>run. fst (tokenize_while s acc) = Inl (ValueError run) \<and>
        ((\<exists>d \<in> set (lx_text s). char_isdigit d \<and> \<not> char_isdecimal d) \<or>
         max_str_digits < length (lx_text s)))"
proof (induction s acc rule: tokenize_while.induct)
  case (1 s tokens)
  note inv = "1.prems"
  obtain r s1 where nt: "next_token s = (r, s1)"
    by (cases "next_token s")
  show ?case
  proof (cases r)
    case (Inl e)
    with nt have "fst (tokenize_while s tokens) = Inl e"
      by (subst tokenize_while.simps) simp
    moreover from nt Inl have "fst (next_token s) = Inl e"
      by simp
    note next_token_error_kinds [OF inv this]
    ultimately show ?thesis
      by auto
  next
    case (Inr tok)
    with nt have nt': "next_token s = (Inr tok, s1)"
      by simp
    show ?thesis
    proof (cases "tok_type tok = ''EOF''")
      case True
      with nt' have "fst (tokenize_while s tokens) = Inr (tokens @ [tok])"
        by (subst tokenize_while.simps) simp
      with True show ?thesis
        by simp
    next
      case False
      with nt' have step: "tokenize_while s tokens = tokenize_while s1 (tokens @ [tok])"
        by (subst tokenize_while.simps) simp
      from next_token_span [OF inv nt'] have "cursor_inv s1" and "lx_text s1 = lx_text s"
        by simp_all
      with "1.IH" [OF nt' [symmetric] refl False] show ?thesis
        unfolding step by simp
    qed
  qed
qed

lemma tokenize_outcomes:
  "(\<exists>toks. fst (tokenize (Lexer_init t)) = Inr toks \<and> toks \<noteq> [] \<and>
      tok_type (last toks) = ''EOF'') \<or>
   (\<exists>ch l c. fst (tokenize (Lexer_init t)) = Inl (LexerError ch l c)) \<or>
   (\<exists>run. fst (tokenize (Lexer_init t)) = Inl (ValueError run) \<and>
      ((\<exists>d \<in> set t. char_isdigit d \<and> \<not> char_isdecimal d) \<or> max_str_digits < length t))"
  using tokenize_while_outcomes [OF Lexer_init_cursor_inv, of t "[]"]
  by (simp add: tokenize_def Lexer_init_def)

end
